theory Spec2Isabelle
  imports Main "HOL-Library.Word"
begin

section \<open>Data model of qtree.cpp\<close>

text \<open>
  Coordinates, dimensions and the accumulators of the colour average are C++
  \<^verbatim>\<open>unsigned int\<close> (32 bits, arithmetic modulo \<open>2^32\<close>); colour channels are
  \<^verbatim>\<open>unsigned char\<close>.
\<close>

type_synonym u32 = "32 word"
type_synonym u8 = "8 word"

text \<open>
  \<^verbatim>\<open>RGBAPixel\<close> is declared outside the repository sources: three
  \<^verbatim>\<open>unsigned char\<close> channels and an alpha channel of type \<^verbatim>\<open>double\<close>. The
  alpha channel is only ever copied, so its type is a parameter \<open>'a\<close>. The
  default-constructed pixel \<^verbatim>\<open>RGBAPixel()\<close> is a parameter \<open>dflt\<close> of every
  function that constructs one.
\<close>

record 'a RGBAPixel =
  r :: u8
  g :: u8
  b :: u8
  a :: 'a

text \<open>
  \<^verbatim>\<open>PNG\<close> is declared outside the repository sources as well: an image exposes
  \<^verbatim>\<open>width()\<close>, \<^verbatim>\<open>height()\<close> and \<^verbatim>\<open>getPixel(x, y)\<close>, which hands out the
  pixel stored at column \<open>x\<close> and row \<open>y\<close>. Writing through the pointer
  returned by \<^verbatim>\<open>getPixel\<close> is \<open>setPixel\<close>; \<^verbatim>\<open>PNG(w, h)\<close> allocates \<open>w * h\<close>
  default-constructed pixels.
\<close>

record 'a PNG =
  png_width :: u32
  png_height :: u32
  getPixel :: "u32 \<Rightarrow> u32 \<Rightarrow> 'a RGBAPixel"

definition setPixel :: "'a PNG \<Rightarrow> u32 \<Rightarrow> u32 \<Rightarrow> 'a RGBAPixel \<Rightarrow> 'a PNG" where
  "setPixel canvas x y c =
     canvas\<lparr>getPixel := (\<lambda>x' y'. if x' = x \<and> y' = y then c else getPixel canvas x' y')\<rparr>"

definition PNG_ctor :: "'a RGBAPixel \<Rightarrow> u32 \<Rightarrow> u32 \<Rightarrow> 'a PNG" where
  "PNG_ctor dflt w h = \<lparr>png_width = w, png_height = h, getPixel = (\<lambda>x y. dflt)\<rparr>"

text \<open>
  Two images are the same when they have the same dimensions and the same
  pixel at every coordinate inside them.
\<close>

definition same_image :: "'a PNG \<Rightarrow> 'a PNG \<Rightarrow> bool" where
  "same_image p q \<longleftrightarrow>
     png_width p = png_width q \<and> png_height p = png_height q \<and>
     (\<forall>x y. x < png_width p \<and> y < png_height p \<longrightarrow> getPixel p x y = getPixel q x y)"

text \<open>
  A \<^verbatim>\<open>Node*\<close>: either \<^verbatim>\<open>nullptr\<close> or a node with its rectangle, its average
  colour and its four children. Every node is owned by exactly one parent,
  so a pointer structure below a root is a tree.
\<close>

datatype 'a NodePtr =
    nullptr
  | Node (upLeft: "u32 \<times> u32") (lowRight: "u32 \<times> u32") (avg: "'a RGBAPixel")
         (NW: "'a NodePtr") (NE: "'a NodePtr") (SW: "'a NodePtr") (SE: "'a NodePtr")

record 'a QTree =
  width :: u32
  height :: u32
  root :: "'a NodePtr"

section \<open>The operations\<close>

subsection \<open>IsLeaf\<close>

definition IsLeaf :: "'a NodePtr \<Rightarrow> bool" where
  "IsLeaf node \<longleftrightarrow>
     node \<noteq> nullptr \<and> NW node = nullptr \<and> NE node = nullptr \<and>
     SW node = nullptr \<and> SE node = nullptr"

subsection \<open>CalculateAverageColor\<close>

definition nodePixelCount :: "'a NodePtr \<Rightarrow> u32" where
  "nodePixelCount node =
     (fst (lowRight node) - fst (upLeft node) + 1) * (snd (lowRight node) - snd (upLeft node) + 1)"

text \<open>The lambda \<^verbatim>\<open>addColor\<close>, on the four accumulators it captures by reference.\<close>

definition addColor :: "'a NodePtr \<Rightarrow> u32 \<times> u32 \<times> u32 \<times> u32 \<Rightarrow> u32 \<times> u32 \<times> u32 \<times> u32" where
  "addColor node acc =
     (case acc of (sumRed, sumGreen, sumBlue, pixelCount) \<Rightarrow>
        if node \<noteq> nullptr then
          (sumRed + ucast (r (avg node)) * nodePixelCount node,
           sumGreen + ucast (g (avg node)) * nodePixelCount node,
           sumBlue + ucast (b (avg node)) * nodePixelCount node,
           pixelCount + nodePixelCount node)
        else acc)"

definition CalculateAverageColor ::
  "'a RGBAPixel \<Rightarrow> 'a NodePtr \<Rightarrow> 'a NodePtr \<Rightarrow> 'a NodePtr \<Rightarrow> 'a NodePtr \<Rightarrow> 'a RGBAPixel" where
  "CalculateAverageColor dflt nw ne sw se =
     (case addColor se (addColor sw (addColor ne (addColor nw (0, 0, 0, 0)))) of
        (sumRed, sumGreen, sumBlue, pixelCount) \<Rightarrow>
          if pixelCount > 0
          then dflt\<lparr>r := ucast (sumRed div pixelCount),
                    g := ucast (sumGreen div pixelCount),
                    b := ucast (sumBlue div pixelCount)\<rparr>
          else (if nw \<noteq> nullptr then avg nw else dflt))"

subsection \<open>BuildNode and the constructor\<close>

text \<open>
  The recursion of \<^verbatim>\<open>BuildNode\<close> follows the midpoints, which are computed
  modulo \<open>2^32\<close>; on some rectangles it never returns (the value \<open>None\<close>).
\<close>

partial_function (option) BuildNode ::
  "'a RGBAPixel \<Rightarrow> 'a PNG \<Rightarrow> u32 \<times> u32 \<Rightarrow> u32 \<times> u32 \<Rightarrow> 'a NodePtr option" where
  "BuildNode dflt img ul lr =
     (if ul = lr
      then Some (Node ul lr (getPixel img (fst ul) (snd ul)) nullptr nullptr nullptr nullptr)
      else
        let midX = (fst ul + fst lr) div 2;
            midY = (snd ul + snd lr) div 2
        in
        Option.bind (if fst ul \<le> midX \<and> snd ul \<le> midY
                     then BuildNode dflt img ul (midX, midY)
                     else Some nullptr) (\<lambda>nw.
        Option.bind (if midX + 1 \<le> fst lr \<and> snd ul \<le> midY
                     then BuildNode dflt img (midX + 1, snd ul) (fst lr, midY)
                     else Some nullptr) (\<lambda>ne.
        Option.bind (if fst ul \<le> midX \<and> midY + 1 \<le> snd lr
                     then BuildNode dflt img (fst ul, midY + 1) (midX, snd lr)
                     else Some nullptr) (\<lambda>sw.
        Option.bind (if midX + 1 \<le> fst lr \<and> midY + 1 \<le> snd lr
                     then BuildNode dflt img (midX + 1, midY + 1) lr
                     else Some nullptr) (\<lambda>se.
        Some (Node ul lr (CalculateAverageColor dflt nw ne sw se) nw ne sw se))))))"

declare BuildNode.simps [code]

definition QTree_ctor :: "'a RGBAPixel \<Rightarrow> 'a PNG \<Rightarrow> 'a QTree option" where
  "QTree_ctor dflt imIn =
     map_option (\<lambda>n. \<lparr>width = png_width imIn, height = png_height imIn, root = n\<rparr>)
       (BuildNode dflt imIn (0, 0) (png_width imIn - 1, png_height imIn - 1))"

subsection \<open>Render\<close>

lemma loop_measure: "(y :: u32) < yend \<Longrightarrow> unat yend - unat (y + 1) < unat yend - unat y"
proof -
  assume lt: "y < yend"
  then have "unat y < unat yend" by (simp add: word_less_nat_alt)
  moreover have "unat y < 2 ^ 32 - 1"
    using \<open>unat y < unat yend\<close> unsigned_less [of yend, where 'a = nat] by simp
  then have "unat (y + 1) = unat y + 1" by (simp add: unat_word_ariths)
  ultimately show ?thesis by simp
qed

text \<open>The inner loop over \<open>y\<close> and the outer loop over \<open>x\<close> of a leaf's rectangle.\<close>

function RenderNode_for_y ::
  "'a RGBAPixel \<Rightarrow> u32 \<Rightarrow> u32 \<Rightarrow> u32 \<Rightarrow> 'a PNG \<Rightarrow> 'a PNG" where
  "RenderNode_for_y c x y yend canvas =
     (if y < yend
      then RenderNode_for_y c x (y + 1) yend
             (if x < png_width canvas \<and> y < png_height canvas
              then setPixel canvas x y c else canvas)
      else canvas)"
  by pat_completeness auto
termination
  by (relation "measure (\<lambda>(c, x, y, yend, canvas). unat yend - unat y)")
     (auto simp: loop_measure)

function RenderNode_for_x ::
  "'a RGBAPixel \<Rightarrow> u32 \<Rightarrow> u32 \<Rightarrow> u32 \<Rightarrow> u32 \<Rightarrow> 'a PNG \<Rightarrow> 'a PNG" where
  "RenderNode_for_x c x xend ystart yend canvas =
     (if x < xend
      then RenderNode_for_x c (x + 1) xend ystart yend (RenderNode_for_y c x ystart yend canvas)
      else canvas)"
  by pat_completeness auto
termination
  by (relation "measure (\<lambda>(c, x, xend, ystart, yend, canvas). unat xend - unat x)")
     (auto simp: loop_measure)

declare RenderNode_for_y.simps [simp del]
declare RenderNode_for_x.simps [simp del]

fun RenderNode :: "'a NodePtr \<Rightarrow> u32 \<Rightarrow> 'a PNG \<Rightarrow> 'a PNG" where
  "RenderNode nullptr scale canvas = canvas"
| "RenderNode (Node ul lr c nw ne sw se) scale canvas =
     (if IsLeaf (Node ul lr c nw ne sw se)
      then RenderNode_for_x c (fst ul * scale) ((fst lr + 1) * scale)
             (snd ul * scale) ((snd lr + 1) * scale) canvas
      else RenderNode se scale (RenderNode sw scale (RenderNode ne scale (RenderNode nw scale canvas))))"

definition Render :: "'a RGBAPixel \<Rightarrow> 'a QTree \<Rightarrow> u32 \<Rightarrow> 'a PNG" where
  "Render dflt t scale =
     RenderNode (root t) scale (PNG_ctor dflt (width t * scale) (height t * scale))"

subsection \<open>Prune\<close>

text \<open>
  \<^verbatim>\<open>RGBAPixel::distanceTo\<close> is outside the repository sources and computes in
  floating point: the metric is a parameter \<open>distanceTo\<close> with values in
  any linear order, and the tolerance is a value of that order.
\<close>

fun CanPrune ::
  "('a RGBAPixel \<Rightarrow> 'a RGBAPixel \<Rightarrow> 'd::linorder) \<Rightarrow> 'a NodePtr \<Rightarrow> 'a RGBAPixel \<Rightarrow> 'd \<Rightarrow> bool" where
  "CanPrune distanceTo nullptr avgColor tolerance = True"
| "CanPrune distanceTo (Node ul lr c nw ne sw se) avgColor tolerance =
     (if IsLeaf (Node ul lr c nw ne sw se)
      then distanceTo c avgColor \<le> tolerance
      else CanPrune distanceTo nw avgColor tolerance \<and>
           CanPrune distanceTo ne avgColor tolerance \<and>
           CanPrune distanceTo sw avgColor tolerance \<and>
           CanPrune distanceTo se avgColor tolerance)"

text \<open>\<^verbatim>\<open>ClearSubtree\<close> deletes every node below the pointer and sets it to null.\<close>

fun ClearSubtree :: "'a NodePtr \<Rightarrow> 'a NodePtr" where
  "ClearSubtree nullptr = nullptr"
| "ClearSubtree (Node ul lr c nw ne sw se) = nullptr"

fun PruneNode ::
  "('a RGBAPixel \<Rightarrow> 'a RGBAPixel \<Rightarrow> 'd::linorder) \<Rightarrow> 'a NodePtr \<Rightarrow> 'd \<Rightarrow> 'a NodePtr" where
  "PruneNode distanceTo nullptr tolerance = nullptr"
| "PruneNode distanceTo (Node ul lr c nw ne sw se) tolerance =
     (if IsLeaf (Node ul lr c nw ne sw se) then Node ul lr c nw ne sw se
      else
        let nw' = PruneNode distanceTo nw tolerance;
            ne' = PruneNode distanceTo ne tolerance;
            sw' = PruneNode distanceTo sw tolerance;
            se' = PruneNode distanceTo se tolerance
        in if CanPrune distanceTo (Node ul lr c nw' ne' sw' se') c tolerance
           then Node ul lr c (ClearSubtree nw') (ClearSubtree ne') (ClearSubtree sw') (ClearSubtree se')
           else Node ul lr c nw' ne' sw' se')"

definition Prune ::
  "('a RGBAPixel \<Rightarrow> 'a RGBAPixel \<Rightarrow> 'd::linorder) \<Rightarrow> 'a QTree \<Rightarrow> 'd \<Rightarrow> 'a QTree" where
  "Prune distanceTo t tolerance = t\<lparr>root := PruneNode distanceTo (root t) tolerance\<rparr>"

subsection \<open>FlipHorizontal\<close>

text \<open>\<^verbatim>\<open>UpdateCoordinatesAfterFlip\<close> reads the member \<^verbatim>\<open>width\<close> of the tree.\<close>

fun UpdateCoordinatesAfterFlip :: "u32 \<Rightarrow> 'a NodePtr \<Rightarrow> 'a NodePtr" where
  "UpdateCoordinatesAfterFlip w nullptr = nullptr"
| "UpdateCoordinatesAfterFlip w (Node ul lr c nw ne sw se) =
     (let totalWidth = w - 1;
          newLeftX = totalWidth - fst lr;
          newRightX = totalWidth - fst ul
      in Node (newLeftX, snd ul) (newRightX, snd lr) c nw ne sw se)"

lemma size_UpdateCoordinatesAfterFlip [simp]:
  "size (UpdateCoordinatesAfterFlip w node) = size node"
  by (cases node) (simp_all add: Let_def)

function FlipNodeHorizontal :: "u32 \<Rightarrow> 'a NodePtr \<Rightarrow> 'a NodePtr" where
  "FlipNodeHorizontal w nullptr = nullptr"
| "FlipNodeHorizontal w (Node ul lr c nw ne sw se) =
     Node ul lr c
       (FlipNodeHorizontal w (UpdateCoordinatesAfterFlip w ne))
       (FlipNodeHorizontal w (UpdateCoordinatesAfterFlip w nw))
       (FlipNodeHorizontal w (UpdateCoordinatesAfterFlip w se))
       (FlipNodeHorizontal w (UpdateCoordinatesAfterFlip w sw))"
  by pat_completeness auto
termination
  by (relation "measure (\<lambda>(w, node). size node)") auto

definition FlipHorizontal :: "'a QTree \<Rightarrow> 'a QTree" where
  "FlipHorizontal t = t\<lparr>root := FlipNodeHorizontal (width t) (root t)\<rparr>"

subsection \<open>RotateCCW\<close>

fun RotateNodeCCW :: "'a NodePtr \<Rightarrow> u32 \<times> u32 \<Rightarrow> u32 \<times> u32 \<Rightarrow> 'a NodePtr" where
  "RotateNodeCCW nullptr ul lr = nullptr"
| "RotateNodeCCW (Node ul0 lr0 c nw ne sw se) ul lr =
     (let midX = (fst ul + fst lr) div 2;
          midY = (snd ul + snd lr) div 2;
          nw' = (if sw \<noteq> nullptr
                 then RotateNodeCCW sw (snd ul, fst lr - midX) (midY, fst lr) else sw);
          ne' = (if nw \<noteq> nullptr
                 then RotateNodeCCW nw (snd ul, fst ul) (midY, fst lr - midX) else nw);
          sw' = (if se \<noteq> nullptr
                 then RotateNodeCCW se (midY + 1, fst lr - midX) (snd lr, fst lr) else se);
          se' = (if ne \<noteq> nullptr
                 then RotateNodeCCW ne (midY + 1, fst ul) (snd lr, fst lr - midX) else ne)
      in Node (snd ul, fst lr - (fst lr - fst ul)) (snd lr, fst lr - fst ul) c nw' ne' sw' se')"

definition RotateCCW :: "'a QTree \<Rightarrow> 'a QTree" where
  "RotateCCW t =
     (let t' = t\<lparr>width := height t, height := width t\<rparr>
      in t'\<lparr>root := RotateNodeCCW (root t') (0, 0) (width t' - 1, height t' - 1)\<rparr>)"

section \<open>The nodes in memory\<close>

text \<open>
  The trees above are values: they cannot say whether two trees share a node.
  For that the nodes are also modelled where the program keeps them, in
  dynamic memory. An address is an index into the store; \<^verbatim>\<open>new Node(...)\<close>
  appends a cell whose four child pointers are null, \<^verbatim>\<open>delete\<close> empties the
  cell. Reading or writing through a pointer to an emptied or unallocated cell
  is undefined behaviour in C++: here the operation has no result
  (\<open>None\<close>).
\<close>

type_synonym addr = nat

record 'a NodeCell =
  cell_upLeft :: "u32 \<times> u32"
  cell_lowRight :: "u32 \<times> u32"
  cell_avg :: "'a RGBAPixel"
  cell_NW :: "addr option"
  cell_NE :: "addr option"
  cell_SW :: "addr option"
  cell_SE :: "addr option"

type_synonym 'a store = "'a NodeCell option list"

definition load :: "'a store \<Rightarrow> addr \<Rightarrow> 'a NodeCell option" where
  "load s p = (if p < length s then s ! p else None)"

definition new_Node :: "'a store \<Rightarrow> u32 \<times> u32 \<Rightarrow> u32 \<times> u32 \<Rightarrow> 'a RGBAPixel \<Rightarrow> 'a store \<times> addr" where
  "new_Node s ul lr c =
     (s @ [Some \<lparr>cell_upLeft = ul, cell_lowRight = lr, cell_avg = c,
                  cell_NW = None, cell_NE = None, cell_SW = None, cell_SE = None\<rparr>],
      length s)"

definition delete_Node :: "'a store \<Rightarrow> addr \<Rightarrow> 'a store" where
  "delete_Node s p = s[p := None]"

definition set_NW :: "'a store \<Rightarrow> addr \<Rightarrow> addr option \<Rightarrow> 'a store option" where
  "set_NW s p q = map_option (\<lambda>n. s[p := Some (n\<lparr>cell_NW := q\<rparr>)]) (load s p)"

definition set_NE :: "'a store \<Rightarrow> addr \<Rightarrow> addr option \<Rightarrow> 'a store option" where
  "set_NE s p q = map_option (\<lambda>n. s[p := Some (n\<lparr>cell_NE := q\<rparr>)]) (load s p)"

definition set_SW :: "'a store \<Rightarrow> addr \<Rightarrow> addr option \<Rightarrow> 'a store option" where
  "set_SW s p q = map_option (\<lambda>n. s[p := Some (n\<lparr>cell_SW := q\<rparr>)]) (load s p)"

definition set_SE :: "'a store \<Rightarrow> addr \<Rightarrow> addr option \<Rightarrow> 'a store option" where
  "set_SE s p q = map_option (\<lambda>n. s[p := Some (n\<lparr>cell_SE := q\<rparr>)]) (load s p)"

subsection \<open>CopyNode, ClearNode\<close>

partial_function (option) CopyNode ::
  "'a store \<Rightarrow> addr option \<Rightarrow> ('a store \<times> addr option) option" where
  "CopyNode s otherNode =
     (case otherNode of
        None \<Rightarrow> Some (s, None)
      | Some p \<Rightarrow>
          Option.bind (load s p) (\<lambda>n.
          case new_Node s (cell_upLeft n) (cell_lowRight n) (cell_avg n) of (s0, newNode) \<Rightarrow>
          Option.bind (load s0 p) (\<lambda>n0.
          Option.bind (CopyNode s0 (cell_NW n0)) (\<lambda>(s1, nw).
          Option.bind (set_NW s1 newNode nw) (\<lambda>s1'.
          Option.bind (load s1' p) (\<lambda>n1.
          Option.bind (CopyNode s1' (cell_NE n1)) (\<lambda>(s2, ne).
          Option.bind (set_NE s2 newNode ne) (\<lambda>s2'.
          Option.bind (load s2' p) (\<lambda>n2.
          Option.bind (CopyNode s2' (cell_SW n2)) (\<lambda>(s3, sw).
          Option.bind (set_SW s3 newNode sw) (\<lambda>s3'.
          Option.bind (load s3' p) (\<lambda>n3.
          Option.bind (CopyNode s3' (cell_SE n3)) (\<lambda>(s4, se).
          Option.bind (set_SE s4 newNode se) (\<lambda>s4'.
          Some (s4', Some newNode)))))))))))))))"

partial_function (option) ClearNode :: "'a store \<Rightarrow> addr option \<Rightarrow> 'a store option" where
  "ClearNode s node =
     (case node of
        None \<Rightarrow> Some s
      | Some p \<Rightarrow>
          Option.bind (load s p) (\<lambda>n.
          Option.bind (ClearNode s (cell_NW n)) (\<lambda>s1.
          Option.bind (load s1 p) (\<lambda>n1.
          Option.bind (ClearNode s1 (cell_NE n1)) (\<lambda>s2.
          Option.bind (load s2 p) (\<lambda>n2.
          Option.bind (ClearNode s2 (cell_SW n2)) (\<lambda>s3.
          Option.bind (load s3 p) (\<lambda>n3.
          Option.bind (ClearNode s3 (cell_SE n3)) (\<lambda>s4.
          Option.bind (load s4 p) (\<lambda>n4.
          Some (delete_Node s4 p)))))))))))"

subsection \<open>IsLeaf, RenderNode, CanPrune, ClearSubtree and PruneNode on cells\<close>

text \<open>
  \<^verbatim>\<open>ClearSubtree\<close> takes its pointer by reference and ends with
  \<^verbatim>\<open>node = nullptr\<close>: the caller's field is overwritten, which is written
  here after each call.
\<close>

definition IsLeaf_s :: "'a store \<Rightarrow> addr option \<Rightarrow> bool option" where
  "IsLeaf_s s node =
     (case node of
        None \<Rightarrow> Some False
      | Some p \<Rightarrow>
          map_option (\<lambda>n. cell_NW n = None \<and> cell_NE n = None \<and>
                           cell_SW n = None \<and> cell_SE n = None) (load s p))"

partial_function (option) RenderNode_s ::
  "'a store \<Rightarrow> addr option \<Rightarrow> u32 \<Rightarrow> 'a PNG \<Rightarrow> 'a PNG option" where
  "RenderNode_s s node scale canvas =
     (case node of
        None \<Rightarrow> Some canvas
      | Some p \<Rightarrow>
          Option.bind (IsLeaf_s s node) (\<lambda>leaf.
          Option.bind (load s p) (\<lambda>n.
          if leaf
          then Some (RenderNode_for_x (cell_avg n)
                 (fst (cell_upLeft n) * scale) ((fst (cell_lowRight n) + 1) * scale)
                 (snd (cell_upLeft n) * scale) ((snd (cell_lowRight n) + 1) * scale) canvas)
          else
            Option.bind (RenderNode_s s (cell_NW n) scale canvas) (\<lambda>c1.
            Option.bind (RenderNode_s s (cell_NE n) scale c1) (\<lambda>c2.
            Option.bind (RenderNode_s s (cell_SW n) scale c2) (\<lambda>c3.
            RenderNode_s s (cell_SE n) scale c3))))))"

partial_function (option) CanPrune_s ::
  "('a RGBAPixel \<Rightarrow> 'a RGBAPixel \<Rightarrow> 'd::linorder) \<Rightarrow> 'a store \<Rightarrow> addr option \<Rightarrow>
   'a RGBAPixel \<Rightarrow> 'd \<Rightarrow> bool option" where
  "CanPrune_s distanceTo s node avgColor tolerance =
     (case node of
        None \<Rightarrow> Some True
      | Some p \<Rightarrow>
          Option.bind (IsLeaf_s s node) (\<lambda>leaf.
          Option.bind (load s p) (\<lambda>n.
          if leaf then Some (distanceTo (cell_avg n) avgColor \<le> tolerance)
          else
            Option.bind (CanPrune_s distanceTo s (cell_NW n) avgColor tolerance) (\<lambda>b1.
            if \<not> b1 then Some False else
            Option.bind (CanPrune_s distanceTo s (cell_NE n) avgColor tolerance) (\<lambda>b2.
            if \<not> b2 then Some False else
            Option.bind (CanPrune_s distanceTo s (cell_SW n) avgColor tolerance) (\<lambda>b3.
            if \<not> b3 then Some False else
            CanPrune_s distanceTo s (cell_SE n) avgColor tolerance))))))"

partial_function (option) ClearSubtree_s :: "'a store \<Rightarrow> addr option \<Rightarrow> 'a store option" where
  "ClearSubtree_s s node =
     (case node of
        None \<Rightarrow> Some s
      | Some p \<Rightarrow>
          Option.bind (load s p) (\<lambda>n.
          Option.bind (ClearSubtree_s s (cell_NW n)) (\<lambda>s1.
          Option.bind (set_NW s1 p None) (\<lambda>s1'.
          Option.bind (load s1' p) (\<lambda>n1.
          Option.bind (ClearSubtree_s s1' (cell_NE n1)) (\<lambda>s2.
          Option.bind (set_NE s2 p None) (\<lambda>s2'.
          Option.bind (load s2' p) (\<lambda>n2.
          Option.bind (ClearSubtree_s s2' (cell_SW n2)) (\<lambda>s3.
          Option.bind (set_SW s3 p None) (\<lambda>s3'.
          Option.bind (load s3' p) (\<lambda>n3.
          Option.bind (ClearSubtree_s s3' (cell_SE n3)) (\<lambda>s4.
          Option.bind (set_SE s4 p None) (\<lambda>s4'.
          Option.bind (load s4' p) (\<lambda>n4.
          Some (delete_Node s4' p)))))))))))))))"

text \<open>
  The four calls \<^verbatim>\<open>ClearSubtree(node->NW)\<close>, ..., \<^verbatim>\<open>ClearSubtree(node->SE)\<close>, each
  followed by the assignment of null to the pointer passed by reference.
\<close>

definition clear_children :: "'a store \<Rightarrow> addr \<Rightarrow> 'a store option" where
  "clear_children s p =
     Option.bind (load s p) (\<lambda>n.
     Option.bind (ClearSubtree_s s (cell_NW n)) (\<lambda>s1.
     Option.bind (set_NW s1 p None) (\<lambda>s1'.
     Option.bind (load s1' p) (\<lambda>n1.
     Option.bind (ClearSubtree_s s1' (cell_NE n1)) (\<lambda>s2.
     Option.bind (set_NE s2 p None) (\<lambda>s2'.
     Option.bind (load s2' p) (\<lambda>n2.
     Option.bind (ClearSubtree_s s2' (cell_SW n2)) (\<lambda>s3.
     Option.bind (set_SW s3 p None) (\<lambda>s3'.
     Option.bind (load s3' p) (\<lambda>n3.
     Option.bind (ClearSubtree_s s3' (cell_SE n3)) (\<lambda>s4.
     set_SE s4 p None)))))))))))"

partial_function (option) PruneNode_s ::
  "('a RGBAPixel \<Rightarrow> 'a RGBAPixel \<Rightarrow> 'd::linorder) \<Rightarrow> 'a store \<Rightarrow> addr option \<Rightarrow> 'd \<Rightarrow>
   'a store option" where
  "PruneNode_s distanceTo s node tolerance =
     (case node of
        None \<Rightarrow> Some s
      | Some p \<Rightarrow>
          Option.bind (IsLeaf_s s node) (\<lambda>leaf.
          if leaf then Some s
          else
            Option.bind (load s p) (\<lambda>n.
            Option.bind (PruneNode_s distanceTo s (cell_NW n) tolerance) (\<lambda>s1.
            Option.bind (load s1 p) (\<lambda>n1.
            Option.bind (PruneNode_s distanceTo s1 (cell_NE n1) tolerance) (\<lambda>s2.
            Option.bind (load s2 p) (\<lambda>n2.
            Option.bind (PruneNode_s distanceTo s2 (cell_SW n2) tolerance) (\<lambda>s3.
            Option.bind (load s3 p) (\<lambda>n3.
            Option.bind (PruneNode_s distanceTo s3 (cell_SE n3) tolerance) (\<lambda>s4.
            Option.bind (load s4 p) (\<lambda>n4.
            Option.bind (CanPrune_s distanceTo s4 node (cell_avg n4) tolerance) (\<lambda>can.
            if can then
              Option.bind (ClearSubtree_s s4 (cell_NW n4)) (\<lambda>c1.
              Option.bind (set_NW c1 p None) (\<lambda>c1'.
              Option.bind (load c1' p) (\<lambda>m1.
              Option.bind (ClearSubtree_s c1' (cell_NE m1)) (\<lambda>c2.
              Option.bind (set_NE c2 p None) (\<lambda>c2'.
              Option.bind (load c2' p) (\<lambda>m2.
              Option.bind (ClearSubtree_s c2' (cell_SW m2)) (\<lambda>c3.
              Option.bind (set_SW c3 p None) (\<lambda>c3'.
              Option.bind (load c3' p) (\<lambda>m3.
              Option.bind (ClearSubtree_s c3' (cell_SE m3)) (\<lambda>c4.
              set_SE c4 p None))))))))))
            else Some s4))))))))))))"

subsection \<open>The QTree objects\<close>

text \<open>
  A \<^verbatim>\<open>QTree\<close> object holds \<^verbatim>\<open>width\<close>, \<^verbatim>\<open>height\<close> and the pointer \<^verbatim>\<open>root\<close>.
  The objects of a program are kept in a table, so that the test
  \<^verbatim>\<open>this == &rhs\<close> of the assignment operator is a comparison of indices.
\<close>

record QTree_obj =
  obj_width :: u32
  obj_height :: u32
  obj_root :: "addr option"

record 'a memory =
  heap :: "'a store"
  objects :: "QTree_obj list"

definition object :: "'a memory \<Rightarrow> nat \<Rightarrow> QTree_obj option" where
  "object m i = (if i < length (objects m) then Some (objects m ! i) else None)"

definition Clear :: "'a memory \<Rightarrow> nat \<Rightarrow> 'a memory option" where
  "Clear m this =
     Option.bind (object m this) (\<lambda>t.
     Option.bind (ClearNode (heap m) (obj_root t)) (\<lambda>s.
     Some \<lparr>heap = s,
           objects = (objects m)[this := \<lparr>obj_width = 0, obj_height = 0, obj_root = None\<rparr>]\<rparr>))"

definition Copy :: "'a memory \<Rightarrow> nat \<Rightarrow> nat \<Rightarrow> 'a memory option" where
  "Copy m this other =
     Option.bind (object m this) (\<lambda>t.
     Option.bind (object m other) (\<lambda>ot.
     Option.bind (CopyNode (heap m) (obj_root ot)) (\<lambda>(s, q).
     Some \<lparr>heap = s,
           objects = (objects m)[this := \<lparr>obj_width = obj_width ot,
              obj_height = obj_height ot, obj_root = q\<rparr>]\<rparr>)))"

definition operator_assign :: "'a memory \<Rightarrow> nat \<Rightarrow> nat \<Rightarrow> 'a memory option" where
  "operator_assign m this rhs =
     (if this = rhs then Some m
      else Option.bind (Clear m this) (\<lambda>m1. Copy m1 this rhs))"

text \<open>
  Modelled from the spec: the copy constructor \<^verbatim>\<open>QTree(const QTree& other)\<close>,
  which is declared outside qtree.cpp. The source says of \<^verbatim>\<open>Copy\<close> that it is
  called by the copy constructor and by the assignment operator, and the
  specification that \<^verbatim>\<open>Copy\<close> is used by copy-construction and assignment:
  the constructor calls \<^verbatim>\<open>Copy(other)\<close> on the new object, whose members hold
  whatever was in its memory (\<open>junk\<close>).
\<close>

definition QTree_copy :: "'a memory \<Rightarrow> QTree_obj \<Rightarrow> nat \<Rightarrow> ('a memory \<times> nat) option" where
  "QTree_copy m junk other =
     map_option (\<lambda>m'. (m', length (objects m)))
       (Copy (m\<lparr>objects := objects m @ [junk]\<rparr>) (length (objects m)) other)"

text \<open>\<^verbatim>\<open>Prune\<close> and \<^verbatim>\<open>Render\<close> of an object.\<close>

definition Prune_s ::
  "('a RGBAPixel \<Rightarrow> 'a RGBAPixel \<Rightarrow> 'd::linorder) \<Rightarrow> 'a memory \<Rightarrow> nat \<Rightarrow> 'd \<Rightarrow> 'a memory option" where
  "Prune_s distanceTo m this tolerance =
     Option.bind (object m this) (\<lambda>t.
     Option.bind (PruneNode_s distanceTo (heap m) (obj_root t) tolerance) (\<lambda>s.
     Some (m\<lparr>heap := s\<rparr>)))"

definition Render_s :: "'a RGBAPixel \<Rightarrow> 'a memory \<Rightarrow> nat \<Rightarrow> u32 \<Rightarrow> 'a PNG option" where
  "Render_s dflt m this scale =
     Option.bind (object m this) (\<lambda>t.
     RenderNode_s (heap m) (obj_root t) scale
       (PNG_ctor dflt (obj_width t * scale) (obj_height t * scale)))"

section \<open>Vocabulary of the properties\<close>

text \<open>
  The pixels of the inclusive rectangle from \<open>ul\<close> to \<open>lr\<close>, and the target
  pixels that the two loops of \<^verbatim>\<open>RenderNode\<close> visit for a leaf.
\<close>

definition in_rect :: "u32 \<times> u32 \<Rightarrow> u32 \<times> u32 \<Rightarrow> u32 \<Rightarrow> u32 \<Rightarrow> bool" where
  "in_rect ul lr x y \<longleftrightarrow> fst ul \<le> x \<and> x \<le> fst lr \<and> snd ul \<le> y \<and> y \<le> snd lr"

definition covers :: "u32 \<times> u32 \<Rightarrow> u32 \<times> u32 \<Rightarrow> u32 \<Rightarrow> u32 \<Rightarrow> u32 \<Rightarrow> bool" where
  "covers ul lr scale x y \<longleftrightarrow>
     fst ul * scale \<le> x \<and> x < (fst lr + 1) * scale \<and>
     snd ul * scale \<le> y \<and> y < (snd lr + 1) * scale"

text \<open>
  The colour that \<^verbatim>\<open>RenderNode\<close> leaves at a target pixel, if it writes there
  at all: the children are drawn in the order NW, NE, SW, SE, and a later
  write wins.
\<close>

fun drawn :: "'a NodePtr \<Rightarrow> u32 \<Rightarrow> u32 \<Rightarrow> u32 \<Rightarrow> 'a RGBAPixel option" where
  "drawn nullptr scale x y = None"
| "drawn (Node ul lr c nw ne sw se) scale x y =
     (if IsLeaf (Node ul lr c nw ne sw se)
      then (if covers ul lr scale x y then Some c else None)
      else (case drawn se scale x y of Some c' \<Rightarrow> Some c'
            | None \<Rightarrow> (case drawn sw scale x y of Some c' \<Rightarrow> Some c'
            | None \<Rightarrow> (case drawn ne scale x y of Some c' \<Rightarrow> Some c'
            | None \<Rightarrow> drawn nw scale x y))))"

text \<open>The leaves below a pointer, and all the nodes below it.\<close>

fun leaves :: "'a NodePtr \<Rightarrow> 'a NodePtr list" where
  "leaves nullptr = []"
| "leaves (Node ul lr c nw ne sw se) =
     (if IsLeaf (Node ul lr c nw ne sw se) then [Node ul lr c nw ne sw se]
      else leaves nw @ leaves ne @ leaves sw @ leaves se)"

fun nodes :: "'a NodePtr \<Rightarrow> 'a NodePtr list" where
  "nodes nullptr = []"
| "nodes (Node ul lr c nw ne sw se) =
     Node ul lr c nw ne sw se # nodes nw @ nodes ne @ nodes sw @ nodes se"

definition children :: "'a NodePtr \<Rightarrow> 'a NodePtr list" where
  "children node = filter (\<lambda>c. c \<noteq> nullptr) [NW node, NE node, SW node, SE node]"

text \<open>
  The rectangles \<^verbatim>\<open>BuildNode\<close> is called on for an image whose sides are at
  most \<open>2^31\<close>: in increasing order, and small enough for the sum of two
  coordinates not to wrap around. The size of a rectangle measures the
  recursion.
\<close>

definition region_ok :: "u32 \<times> u32 \<Rightarrow> u32 \<times> u32 \<Rightarrow> bool" where
  "region_ok ul lr \<longleftrightarrow>
     fst ul \<le> fst lr \<and> snd ul \<le> snd lr \<and> fst lr < 2 ^ 31 \<and> snd lr < 2 ^ 31"

definition region_size :: "u32 \<times> u32 \<Rightarrow> u32 \<times> u32 \<Rightarrow> nat" where
  "region_size ul lr = unat (fst lr) - unat (fst ul) + (unat (snd lr) - unat (snd ul))"

text \<open>
  An image the constructor is meant for: no side is zero, and no side exceeds
  \<open>2^31\<close> (the PNG format stops at \<open>2^31 - 1\<close>).
\<close>

definition image_ok :: "'a PNG \<Rightarrow> bool" where
  "image_ok img \<longleftrightarrow>
     0 < png_width img \<and> png_width img \<le> 2 ^ 31 \<and>
     0 < png_height img \<and> png_height img \<le> 2 ^ 31"

text \<open>
  The number of pixels of a node's rectangle as a natural number (for a
  rectangle in increasing order), and the area-weighted mean of one colour
  channel over a list of nodes, as the specification words it:
  \<open>\<Sum>(childAvg * area) / \<Sum>area\<close>, truncated.
\<close>

definition area :: "'a NodePtr \<Rightarrow> nat" where
  "area node =
     (unat (fst (lowRight node)) - unat (fst (upLeft node)) + 1) *
     (unat (snd (lowRight node)) - unat (snd (upLeft node)) + 1)"

definition weighted_sum :: "('a RGBAPixel \<Rightarrow> u8) \<Rightarrow> 'a NodePtr list \<Rightarrow> nat" where
  "weighted_sum ch cs = (\<Sum>c\<leftarrow>cs. unat (ch (avg c)) * area c)"

definition total_area :: "'a NodePtr list \<Rightarrow> nat" where
  "total_area cs = (\<Sum>c\<leftarrow>cs. area c)"

definition weighted_mean :: "('a RGBAPixel \<Rightarrow> u8) \<Rightarrow> 'a NodePtr list \<Rightarrow> nat" where
  "weighted_mean ch cs = weighted_sum ch cs div total_area cs"

text \<open>The number of leaf rectangles that hold a pixel.\<close>

definition leaf_count :: "'a NodePtr \<Rightarrow> u32 \<Rightarrow> u32 \<Rightarrow> nat" where
  "leaf_count t x y = length (filter (\<lambda>l. in_rect (upLeft l) (lowRight l) x y) (leaves t))"

text \<open>
  The invariant of the data model. A node's rectangle is in increasing order
  and inside the image; the rectangles of its children lie inside it and are
  pairwise apart (separated along one axis). The root's rectangle is the
  whole image.
\<close>

definition inside :: "'a NodePtr \<Rightarrow> u32 \<times> u32 \<Rightarrow> u32 \<times> u32 \<Rightarrow> bool" where
  "inside c ul lr \<longleftrightarrow>
     c = nullptr \<or>
     (fst ul \<le> fst (upLeft c) \<and> fst (lowRight c) \<le> fst lr \<and>
      snd ul \<le> snd (upLeft c) \<and> snd (lowRight c) \<le> snd lr)"

definition apart :: "'a NodePtr \<Rightarrow> 'a NodePtr \<Rightarrow> bool" where
  "apart c d \<longleftrightarrow>
     c = nullptr \<or> d = nullptr \<or>
     fst (lowRight c) < fst (upLeft d) \<or> fst (lowRight d) < fst (upLeft c) \<or>
     snd (lowRight c) < snd (upLeft d) \<or> snd (lowRight d) < snd (upLeft c)"

fun wf_node :: "u32 \<Rightarrow> u32 \<Rightarrow> 'a NodePtr \<Rightarrow> bool" where
  "wf_node W H nullptr = True"
| "wf_node W H (Node ul lr c nw ne sw se) =
     (fst ul \<le> fst lr \<and> snd ul \<le> snd lr \<and> fst lr < W \<and> snd lr < H \<and>
      inside nw ul lr \<and> inside ne ul lr \<and> inside sw ul lr \<and> inside se ul lr \<and>
      apart nw ne \<and> apart nw sw \<and> apart nw se \<and> apart ne sw \<and> apart ne se \<and> apart sw se \<and>
      wf_node W H nw \<and> wf_node W H ne \<and> wf_node W H sw \<and> wf_node W H se)"

definition tree_ok :: "'a QTree \<Rightarrow> bool" where
  "tree_ok t \<longleftrightarrow>
     wf_node (width t) (height t) (root t) \<and>
     (root t = nullptr \<or>
      (upLeft (root t) = (0, 0) \<and> lowRight (root t) = (width t - 1, height t - 1)))"

text \<open>
  The children that are present, in the order of the four calls of
  \<^verbatim>\<open>addColor\<close>; a rectangle in increasing order; and a node whose stored
  average is, channel by channel, the truncated area-weighted mean of the
  stored averages of its children.
\<close>

definition present :: "'a NodePtr \<Rightarrow> 'a NodePtr \<Rightarrow> 'a NodePtr \<Rightarrow> 'a NodePtr \<Rightarrow> 'a NodePtr list" where
  "present nw ne sw se = filter (\<lambda>c. c \<noteq> nullptr) [nw, ne, sw, se]"

definition increasing :: "'a NodePtr \<Rightarrow> bool" where
  "increasing node \<longleftrightarrow>
     fst (upLeft node) \<le> fst (lowRight node) \<and> snd (upLeft node) \<le> snd (lowRight node)"

definition avg_is_mean :: "'a NodePtr \<Rightarrow> bool" where
  "avg_is_mean n \<longleftrightarrow>
     unat (r (avg n)) = weighted_mean r (children n) \<and>
     unat (g (avg n)) = weighted_mean g (children n) \<and>
     unat (b (avg n)) = weighted_mean b (children n)"

text \<open>A two by two image with four different pixels, and a default pixel.\<close>

definition img0 :: "nat PNG" where
  "img0 = \<lparr>png_width = 2, png_height = 2,
            getPixel = (\<lambda>x y. \<lparr>r = 10 * ucast x, g = 20 * ucast y, b = 7, a = 5\<rparr>)\<rparr>"

definition dflt0 :: "nat RGBAPixel" where
  "dflt0 = \<lparr>r = 255, g = 255, b = 255, a = 1\<rparr>"

text \<open>The tree the constructor builds for the two by two image.\<close>

definition tree0 :: "nat QTree" where
  "tree0 = \<lparr>width = 2, height = 2,
      root = Node (0, 0) (1, 1) \<lparr>r = 5, g = 10, b = 7, a = 1\<rparr>
       (Node (0, 0) (0, 0) \<lparr>r = 0, g = 0, b = 7, a = 5\<rparr> nullptr nullptr nullptr nullptr)
       (Node (1, 0) (1, 0) \<lparr>r = 10, g = 0, b = 7, a = 5\<rparr> nullptr nullptr nullptr nullptr)
       (Node (0, 1) (0, 1) \<lparr>r = 0, g = 20, b = 7, a = 5\<rparr> nullptr nullptr nullptr nullptr)
       (Node (1, 1) (1, 1) \<lparr>r = 10, g = 20, b = 7, a = 5\<rparr> nullptr nullptr nullptr nullptr)\<rparr>"

text \<open>
  A metric to run \<^verbatim>\<open>Prune\<close> with: the squared Euclidean distance of the
  three colour channels (a Euclidean distance is at most \<open>t\<close> exactly when its
  square is at most \<open>t\<^sup>2\<close>). A four by one image that is black at column 0
  and has red 20 elsewhere, and the tree the constructor builds for it.
\<close>

definition dist_sq :: "'a RGBAPixel \<Rightarrow> 'a RGBAPixel \<Rightarrow> int" where
  "dist_sq p q =
     (uint (r p) - uint (r q))\<^sup>2 + (uint (g p) - uint (g q))\<^sup>2 + (uint (b p) - uint (b q))\<^sup>2"

definition img1 :: "nat PNG" where
  "img1 = \<lparr>png_width = 4, png_height = 1,
            getPixel = (\<lambda>x y. \<lparr>r = (if x = 0 then 0 else 20), g = 0, b = 0, a = 1\<rparr>)\<rparr>"

definition tree1 :: "nat QTree" where
  "tree1 = \<lparr>width = 4, height = 1,
     root = Node (0, 0) (3, 0) \<lparr>r = 15, g = 0, b = 0, a = 1\<rparr>
        (Node (0, 0) (1, 0) \<lparr>r = 10, g = 0, b = 0, a = 1\<rparr>
          (Node (0, 0) (0, 0) \<lparr>r = 0, g = 0, b = 0, a = 1\<rparr> nullptr nullptr nullptr nullptr)
          (Node (1, 0) (1, 0) \<lparr>r = 20, g = 0, b = 0, a = 1\<rparr> nullptr nullptr nullptr nullptr)
          nullptr nullptr)
        (Node (2, 0) (3, 0) \<lparr>r = 20, g = 0, b = 0, a = 1\<rparr>
          (Node (2, 0) (2, 0) \<lparr>r = 20, g = 0, b = 0, a = 1\<rparr> nullptr nullptr nullptr nullptr)
          (Node (3, 0) (3, 0) \<lparr>r = 20, g = 0, b = 0, a = 1\<rparr> nullptr nullptr nullptr nullptr)
          nullptr nullptr)
        nullptr nullptr\<rparr>"

text \<open>An image of 8192 by 8192 white pixels.\<close>

definition white :: "nat RGBAPixel" where
  "white = \<lparr>r = 255, g = 255, b = 255, a = 1\<rparr>"

definition img_white :: "nat PNG" where
  "img_white = \<lparr>png_width = 8192, png_height = 8192, getPixel = (\<lambda>x y. white)\<rparr>"

text \<open>
  An image of 8192 by 8192 black pixels; a white node on a given rectangle;
  and a node none of whose three weighted sums reaches \<open>2^32\<close>.
\<close>

definition black :: "nat RGBAPixel" where
  "black = \<lparr>r = 0, g = 0, b = 0, a = 1\<rparr>"

definition img_black :: "nat PNG" where
  "img_black = \<lparr>png_width = 8192, png_height = 8192, getPixel = (\<lambda>x y. black)\<rparr>"

definition white_block :: "u32 \<times> u32 \<Rightarrow> u32 \<times> u32 \<Rightarrow> nat NodePtr" where
  "white_block ul lr = Node ul lr white nullptr nullptr nullptr nullptr"

definition sums_fit :: "'a NodePtr \<Rightarrow> bool" where
  "sums_fit n \<longleftrightarrow>
     weighted_sum r (children n) < 2 ^ 32 \<and> weighted_sum g (children n) < 2 ^ 32 \<and>
     weighted_sum b (children n) < 2 ^ 32"

subsection \<open>Trees in memory\<close>

text \<open>
  The cells that a pointer reaches along the shape of a tree value, and the
  relation between the two models: a pointer owns a tree value when the cells
  it reaches hold the rectangles, colours and children of the value and no
  cell is reached twice. This is the invariant of the class (each tree is the
  only owner of its nodes); \<^verbatim>\<open>new\<close> establishes it node by node.
\<close>

fun addrs :: "'a store \<Rightarrow> addr option \<Rightarrow> 'a NodePtr \<Rightarrow> addr set" where
  "addrs s node nullptr = {}"
| "addrs s node (Node ul lr c nw ne sw se) =
     (case node of
        None \<Rightarrow> {}
      | Some p \<Rightarrow>
          (case load s p of
             None \<Rightarrow> {p}
           | Some n \<Rightarrow>
               insert p (addrs s (cell_NW n) nw \<union> addrs s (cell_NE n) ne \<union>
                         addrs s (cell_SW n) sw \<union> addrs s (cell_SE n) se)))"

fun owns :: "'a store \<Rightarrow> addr option \<Rightarrow> 'a NodePtr \<Rightarrow> bool" where
  "owns s node nullptr = (node = None)"
| "owns s node (Node ul lr c nw ne sw se) =
     (case node of
        None \<Rightarrow> False
      | Some p \<Rightarrow>
          (case load s p of
             None \<Rightarrow> False
           | Some n \<Rightarrow>
               cell_upLeft n = ul \<and> cell_lowRight n = lr \<and> cell_avg n = c \<and>
               owns s (cell_NW n) nw \<and> owns s (cell_NE n) ne \<and>
               owns s (cell_SW n) sw \<and> owns s (cell_SE n) se \<and>
               p \<notin> addrs s (cell_NW n) nw \<union> addrs s (cell_NE n) ne \<union>
                     addrs s (cell_SW n) sw \<union> addrs s (cell_SE n) se \<and>
               addrs s (cell_NW n) nw \<inter> addrs s (cell_NE n) ne = {} \<and>
               addrs s (cell_NW n) nw \<inter> addrs s (cell_SW n) sw = {} \<and>
               addrs s (cell_NW n) nw \<inter> addrs s (cell_SE n) se = {} \<and>
               addrs s (cell_NE n) ne \<inter> addrs s (cell_SW n) sw = {} \<and>
               addrs s (cell_NE n) ne \<inter> addrs s (cell_SE n) se = {} \<and>
               addrs s (cell_SW n) sw \<inter> addrs s (cell_SE n) se = {}))"

text \<open>
  What the recursive operations do to the store: \<open>freed X\<close> empties the
  cells of \<open>X\<close> and leaves the others; \<open>copied\<close> leaves the old cells and
  puts a tree of the same value into cells that did not exist before;
  \<open>pruned\<close> makes the pointer own the pruned value inside its old cells, and
  leaves the cells of everybody else.
\<close>

definition freed :: "addr set \<Rightarrow> 'a store \<Rightarrow> 'a store \<Rightarrow> bool" where
  "freed X s s' \<longleftrightarrow>
     length s' = length s \<and> (\<forall>q. load s' q = (if q \<in> X then None else load s q))"

definition copied :: "'a store \<Rightarrow> 'a NodePtr \<Rightarrow> 'a store \<Rightarrow> addr option \<Rightarrow> bool" where
  "copied s t s' q \<longleftrightarrow>
     length s \<le> length s' \<and> (\<forall>k < length s. load s' k = load s k) \<and>
     owns s' q t \<and> addrs s' q t \<subseteq> {length s ..< length s'}"

definition pruned ::
  "('a RGBAPixel \<Rightarrow> 'a RGBAPixel \<Rightarrow> 'd::linorder) \<Rightarrow> 'd \<Rightarrow> 'a store \<Rightarrow> addr option \<Rightarrow>
   'a NodePtr \<Rightarrow> 'a store \<Rightarrow> bool" where
  "pruned d tol s node t s' \<longleftrightarrow>
     length s' = length s \<and> owns s' node (PruneNode d t tol) \<and>
     addrs s' node (PruneNode d t tol) \<subseteq> addrs s node t \<and>
     (\<forall>q. q \<notin> addrs s node t \<longrightarrow> load s' q = load s q)"

text \<open>
  An object holds a tree value; the cells of an object; and a copy that is
  isolated from its original: both hold the value, on disjoint cells, and
  after pruning the copy, or destroying it with \<^verbatim>\<open>Clear\<close>, the original still
  holds the value and renders as before.
\<close>

definition holds :: "'a memory \<Rightarrow> nat \<Rightarrow> 'a QTree \<Rightarrow> bool" where
  "holds m i T \<longleftrightarrow>
     i < length (objects m) \<and>
     obj_width (objects m ! i) = width T \<and> obj_height (objects m ! i) = height T \<and>
     owns (heap m) (obj_root (objects m ! i)) (root T)"

definition cells_of :: "'a memory \<Rightarrow> nat \<Rightarrow> 'a QTree \<Rightarrow> addr set" where
  "cells_of m i T = addrs (heap m) (obj_root (objects m ! i)) (root T)"

definition isolated ::
  "'a RGBAPixel \<Rightarrow> ('a RGBAPixel \<Rightarrow> 'a RGBAPixel \<Rightarrow> 'd::linorder) \<Rightarrow> 'd \<Rightarrow> u32 \<Rightarrow>
   'a memory \<Rightarrow> nat \<Rightarrow> nat \<Rightarrow> 'a QTree \<Rightarrow> bool" where
  "isolated dflt d tol scale m orig cp T \<longleftrightarrow>
     holds m orig T \<and> holds m cp T \<and> cells_of m orig T \<inter> cells_of m cp T = {} \<and>
     Render_s dflt m orig scale = Some (Render dflt T scale) \<and>
     (\<exists>m'. Prune_s d m cp tol = Some m' \<and> holds m' orig T \<and>
        holds m' cp (Prune d T tol) \<and>
        Render_s dflt m' orig scale = Some (Render dflt T scale)) \<and>
     (\<exists>m'. Clear m cp = Some m' \<and> holds m' orig T \<and>
        Render_s dflt m' orig scale = Some (Render dflt T scale))"

text \<open>
  A memory with two objects: the tree of the four by one image in cells 0 to
  6, a freed cell, and a tree of one pixel in cell 8. And the members of an
  object that has not been initialised.
\<close>

definition leaf_cell :: "u32 \<times> u32 \<Rightarrow> 'a RGBAPixel \<Rightarrow> 'a NodeCell" where
  "leaf_cell p c = \<lparr>cell_upLeft = p, cell_lowRight = p, cell_avg = c,
     cell_NW = None, cell_NE = None, cell_SW = None, cell_SE = None\<rparr>"

definition red :: "u8 \<Rightarrow> nat RGBAPixel" where
  "red v = \<lparr>r = v, g = 0, b = 0, a = 1\<rparr>"

definition mem1 :: "nat memory" where
  "mem1 = \<lparr>heap =
      [Some \<lparr>cell_upLeft = (0, 0), cell_lowRight = (3, 0), cell_avg = red 15,
             cell_NW = Some 1, cell_NE = Some 4, cell_SW = None, cell_SE = None\<rparr>,
       Some \<lparr>cell_upLeft = (0, 0), cell_lowRight = (1, 0), cell_avg = red 10,
             cell_NW = Some 2, cell_NE = Some 3, cell_SW = None, cell_SE = None\<rparr>,
       Some (leaf_cell (0, 0) (red 0)),
       Some (leaf_cell (1, 0) (red 20)),
       Some \<lparr>cell_upLeft = (2, 0), cell_lowRight = (3, 0), cell_avg = red 20,
             cell_NW = Some 5, cell_NE = Some 6, cell_SW = None, cell_SE = None\<rparr>,
       Some (leaf_cell (2, 0) (red 20)),
       Some (leaf_cell (3, 0) (red 20)),
       None,
       Some (leaf_cell (0, 0) (red 9))],
     objects =
      [\<lparr>obj_width = 4, obj_height = 1, obj_root = Some 0\<rparr>,
       \<lparr>obj_width = 1, obj_height = 1, obj_root = Some 8\<rparr>]\<rparr>"

definition tree2 :: "nat QTree" where
  "tree2 = \<lparr>width = 1, height = 1,
     root = Node (0, 0) (0, 0) \<lparr>r = 9, g = 0, b = 0, a = 1\<rparr> nullptr nullptr nullptr nullptr\<rparr>"

definition junk1 :: QTree_obj where
  "junk1 = \<lparr>obj_width = 7, obj_height = 9, obj_root = Some 3\<rparr>"

section \<open>The loops of RenderNode\<close>

lemma word_succ_le: "(y :: u32) < yend \<Longrightarrow> (y + 1 \<le> p) = (y < p)"
proof -
  assume lt: "y < yend"
  then have "unat y < unat yend" by (simp add: word_less_nat_alt)
  then have "unat y < 2 ^ 32 - 1"
    using unsigned_less [of yend, where 'a = nat] by simp
  then have "unat (y + 1) = unat y + 1" by (simp add: unat_word_ariths)
  then show ?thesis by (simp add: word_le_nat_alt word_less_nat_alt Suc_le_eq)
qed

lemma setPixel_simps [simp]:
  "png_width (setPixel cv x y c) = png_width cv"
  "png_height (setPixel cv x y c) = png_height cv"
  "getPixel (setPixel cv x y c) px py = (if px = x \<and> py = y then c else getPixel cv px py)"
  by (simp_all add: setPixel_def)

lemma for_y_dims [simp]:
  "png_width (RenderNode_for_y c x y yend cv) = png_width cv"
  "png_height (RenderNode_for_y c x y yend cv) = png_height cv"
  by (induction c x y yend cv rule: RenderNode_for_y.induct;
      subst RenderNode_for_y.simps; simp)+

lemma for_y_getPixel:
  "getPixel (RenderNode_for_y c x y yend cv) px py =
     (if px = x \<and> y \<le> py \<and> py < yend \<and> x < png_width cv \<and> py < png_height cv
      then c else getPixel cv px py)"
proof (induction c x y yend cv rule: RenderNode_for_y.induct)
  case (1 c x y yend cv)
  show ?case
  proof (cases "y < yend")
    case True
    note IH = 1 [OF True]
    show ?thesis
      apply (subst RenderNode_for_y.simps)
      apply (simp only: True if_True IH)
      using True
      apply (auto simp: word_succ_le [OF True])
      done
  next
    case False
    then show ?thesis
      by (subst RenderNode_for_y.simps) auto
  qed
qed

lemma for_x_dims [simp]:
  "png_width (RenderNode_for_x c x xend ys ye cv) = png_width cv"
  "png_height (RenderNode_for_x c x xend ys ye cv) = png_height cv"
  by (induction c x xend ys ye cv rule: RenderNode_for_x.induct;
      subst RenderNode_for_x.simps; simp)+

lemma for_x_getPixel:
  "getPixel (RenderNode_for_x c x xend ys ye cv) px py =
     (if x \<le> px \<and> px < xend \<and> ys \<le> py \<and> py < ye \<and> px < png_width cv \<and> py < png_height cv
      then c else getPixel cv px py)"
proof (induction c x xend ys ye cv rule: RenderNode_for_x.induct)
  case (1 c x xend ys ye cv)
  show ?case
  proof (cases "x < xend")
    case True
    note IH = 1 [OF True]
    show ?thesis
      apply (subst RenderNode_for_x.simps)
      apply (simp only: True if_True IH)
      using True
      apply (auto simp: word_succ_le [OF True] for_y_getPixel)
      done
  next
    case False
    then show ?thesis
      by (subst RenderNode_for_x.simps) auto
  qed
qed

section \<open>What RenderNode draws\<close>

lemma RenderNode_dims [simp]:
  "png_width (RenderNode node scale cv) = png_width cv"
  "png_height (RenderNode node scale cv) = png_height cv"
  by (induction node arbitrary: cv) simp_all

lemma RenderNode_getPixel:
  "getPixel (RenderNode node scale cv) x y =
     (if x < png_width cv \<and> y < png_height cv
      then (case drawn node scale x y of Some c \<Rightarrow> c | None \<Rightarrow> getPixel cv x y)
      else getPixel cv x y)"
proof (induction node arbitrary: cv)
  case nullptr
  show ?case by simp
next
  case (Node ul lr c nw ne sw se)
  show ?case
  proof (cases "IsLeaf (Node ul lr c nw ne sw se)")
    case True
    then show ?thesis
      by (auto simp: for_x_getPixel covers_def)
  next
    case False
    then show ?thesis
      by (simp add: Node.IH split: option.split)
  qed
qed

lemma Render_getPixel:
  "png_width (Render dflt t scale) = width t * scale"
  "png_height (Render dflt t scale) = height t * scale"
  "getPixel (Render dflt t scale) x y =
     (if x < width t * scale \<and> y < height t * scale
      then (case drawn (root t) scale x y of Some c \<Rightarrow> c | None \<Rightarrow> dflt)
      else dflt)"
  by (auto simp: Render_def RenderNode_getPixel PNG_ctor_def split: option.split)

section \<open>BuildNode on good rectangles\<close>

lemma unat_mid:
  fixes u l :: u32
  assumes "u \<le> l" "l < 2 ^ 31"
  shows "unat ((u + l) div 2) = (unat u + unat l) div 2"
proof -
  have l: "unat l < 2 ^ 31" using assms(2) by (simp add: word_less_nat_alt)
  have u: "unat u \<le> unat l" using assms(1) by (simp add: word_le_nat_alt)
  have "unat (u + l) = unat u + unat l"
    using l u by (simp add: unat_word_ariths)
  then show ?thesis by (simp add: unat_div)
qed

lemma unat_mid_succ:
  fixes u l :: u32
  assumes "u \<le> l" "l < 2 ^ 31"
  shows "unat ((u + l) div 2 + 1) = (unat u + unat l) div 2 + 1"
proof -
  have l: "unat l < 2 ^ 31" using assms(2) by (simp add: word_less_nat_alt)
  have u: "unat u \<le> unat l" using assms(1) by (simp add: word_le_nat_alt)
  show ?thesis
    using l u by (simp add: unat_word_ariths unat_mid [OF assms])
qed

lemma mid_bounds:
  fixes u l :: u32
  assumes "u \<le> l" "l < 2 ^ 31"
  shows "u \<le> (u + l) div 2" "(u + l) div 2 \<le> l" "(u + l) div 2 < 2 ^ 31"
    "((u + l) div 2 + 1 \<le> l) = (u < l)"
    "((u + l) div 2 + 1 \<le> p) = ((u + l) div 2 < p)"
    "((u + l) div 2 = l) = (u = l)"
    "u \<le> (u + l) div 2 + 1"
proof -
  have l: "unat l < 2 ^ 31" using assms(2) by (simp add: word_less_nat_alt)
  have u: "unat u \<le> unat l" using assms(1) by (simp add: word_le_nat_alt)
  note m = unat_mid [OF assms] unat_mid_succ [OF assms]
  show "u \<le> (u + l) div 2" using u by (simp add: word_le_nat_alt m)
  show "(u + l) div 2 \<le> l" using u by (simp add: word_le_nat_alt m)
  show "(u + l) div 2 < 2 ^ 31" using u l by (simp add: word_less_nat_alt m)
  show "((u + l) div 2 + 1 \<le> l) = (u < l)"
    using u by (simp add: word_le_nat_alt word_less_nat_alt m; linarith?)
  show "((u + l) div 2 + 1 \<le> p) = ((u + l) div 2 < p)"
    by (simp add: word_le_nat_alt word_less_nat_alt m Suc_le_eq)
  show "((u + l) div 2 = l) = (u = l)"
    using u by (simp add: word_unat_eq_iff m; linarith?)
  show "u \<le> (u + l) div 2 + 1" using u by (simp add: word_le_nat_alt m)
qed

lemma half_shrink:
  fixes u l :: nat
  assumes "u \<le> l"
  shows "(u + l) div 2 - u \<le> l - u"
    and "l - ((u + l) div 2 + 1) \<le> l - u"
    and "u < l \<Longrightarrow> (u + l) div 2 - u < l - u"
    and "u < l \<Longrightarrow> l - ((u + l) div 2 + 1) < l - u"
  using assms by arith+

text \<open>The four rectangles of a split are again good rectangles, and smaller.\<close>

lemma split_regions:
  assumes ok: "region_ok (ux, uy) (lx, ly)" and ne: "(ux, uy) \<noteq> (lx, ly)"
  defines "mx \<equiv> (ux + lx) div 2" and "my \<equiv> (uy + ly) div 2"
  shows "region_ok (ux, uy) (mx, my) \<and>
         region_size (ux, uy) (mx, my) < region_size (ux, uy) (lx, ly)"
    and "ux < lx \<Longrightarrow> region_ok (mx + 1, uy) (lx, my) \<and>
         region_size (mx + 1, uy) (lx, my) < region_size (ux, uy) (lx, ly)"
    and "uy < ly \<Longrightarrow> region_ok (ux, my + 1) (mx, ly) \<and>
         region_size (ux, my + 1) (mx, ly) < region_size (ux, uy) (lx, ly)"
    and "ux < lx \<Longrightarrow> uy < ly \<Longrightarrow> region_ok (mx + 1, my + 1) (lx, ly) \<and>
         region_size (mx + 1, my + 1) (lx, ly) < region_size (ux, uy) (lx, ly)"
proof -
  from ok have k: "ux \<le> lx" "uy \<le> ly" "lx < 2 ^ 31" "ly < 2 ^ 31"
    by (simp_all add: region_ok_def)
  note bx = mid_bounds(1,2,3,4) [OF k(1) k(3), folded mx_def]
  note by' = mid_bounds(1,2,3,4) [OF k(2) k(4), folded my_def]
  have umx: "unat mx = (unat ux + unat lx) div 2" "unat (mx + 1) = (unat ux + unat lx) div 2 + 1"
    unfolding mx_def by (rule unat_mid [OF k(1) k(3)], rule unat_mid_succ [OF k(1) k(3)])
  have umy: "unat my = (unat uy + unat ly) div 2" "unat (my + 1) = (unat uy + unat ly) div 2 + 1"
    unfolding my_def by (rule unat_mid [OF k(2) k(4)], rule unat_mid_succ [OF k(2) k(4)])
  have nx: "unat ux \<le> unat lx" and ny: "unat uy \<le> unat ly"
    using k by (simp_all add: word_le_nat_alt)
  note hx = half_shrink [OF nx, folded umx] and hy = half_shrink [OF ny, folded umy]
  have nne: "unat ux < unat lx \<or> unat uy < unat ly"
    using ne nx ny by (auto simp: word_unat_eq_iff)
  have "region_size (ux, uy) (mx, my) < region_size (ux, uy) (lx, ly)"
    unfolding region_size_def fst_conv snd_conv
    using nne hx(1) hx(3) hy(1) hy(3) by (auto intro: add_less_le_mono add_le_less_mono)
  moreover have "region_ok (ux, uy) (mx, my)"
    using bx by' by (simp add: region_ok_def)
  ultimately show "region_ok (ux, uy) (mx, my) \<and>
         region_size (ux, uy) (mx, my) < region_size (ux, uy) (lx, ly)" by simp
  show "region_ok (mx + 1, uy) (lx, my) \<and>
         region_size (mx + 1, uy) (lx, my) < region_size (ux, uy) (lx, ly)" if "ux < lx"
  proof
    show "region_ok (mx + 1, uy) (lx, my)" using bx by' k that by (simp add: region_ok_def)
    have "unat ux < unat lx" using that by (simp add: word_less_nat_alt)
    then show "region_size (mx + 1, uy) (lx, my) < region_size (ux, uy) (lx, ly)"
      unfolding region_size_def fst_conv snd_conv
      using hx(4) hy(1) by (auto intro: add_less_le_mono)
  qed
  show "region_ok (ux, my + 1) (mx, ly) \<and>
         region_size (ux, my + 1) (mx, ly) < region_size (ux, uy) (lx, ly)" if "uy < ly"
  proof
    show "region_ok (ux, my + 1) (mx, ly)" using bx by' k that by (simp add: region_ok_def)
    have "unat uy < unat ly" using that by (simp add: word_less_nat_alt)
    then show "region_size (ux, my + 1) (mx, ly) < region_size (ux, uy) (lx, ly)"
      unfolding region_size_def fst_conv snd_conv
      using hx(1) hy(4) by (auto intro: add_le_less_mono)
  qed
  show "region_ok (mx + 1, my + 1) (lx, ly) \<and>
         region_size (mx + 1, my + 1) (lx, ly) < region_size (ux, uy) (lx, ly)"
    if "ux < lx" "uy < ly"
  proof
    show "region_ok (mx + 1, my + 1) (lx, ly)" using bx by' k that by (simp add: region_ok_def)
    have "unat ux < unat lx" using that by (simp add: word_less_nat_alt)
    then show "region_size (mx + 1, my + 1) (lx, ly) < region_size (ux, uy) (lx, ly)"
      unfolding region_size_def fst_conv snd_conv
      using hx(4) hy(2) by (auto intro: add_less_le_mono)
  qed
qed

text \<open>On a good rectangle the four guards of \<^verbatim>\<open>BuildNode\<close> read as follows.\<close>

lemma BuildNode_unfold:
  assumes "region_ok (ux, uy) (lx, ly)" "(ux, uy) \<noteq> (lx, ly)"
  shows "BuildNode dflt img (ux, uy) (lx, ly) =
     Option.bind (BuildNode dflt img (ux, uy) ((ux + lx) div 2, (uy + ly) div 2)) (\<lambda>nw.
     Option.bind (if ux < lx
                  then BuildNode dflt img ((ux + lx) div 2 + 1, uy) (lx, (uy + ly) div 2)
                  else Some nullptr) (\<lambda>ne.
     Option.bind (if uy < ly
                  then BuildNode dflt img (ux, (uy + ly) div 2 + 1) ((ux + lx) div 2, ly)
                  else Some nullptr) (\<lambda>sw.
     Option.bind (if ux < lx \<and> uy < ly
                  then BuildNode dflt img ((ux + lx) div 2 + 1, (uy + ly) div 2 + 1) (lx, ly)
                  else Some nullptr) (\<lambda>se.
     Some (Node (ux, uy) (lx, ly) (CalculateAverageColor dflt nw ne sw se) nw ne sw se)))))"
proof -
  from assms(1) have ok: "ux \<le> lx" "uy \<le> ly" "lx < 2 ^ 31" "ly < 2 ^ 31"
    by (simp_all add: region_ok_def)
  note bx = mid_bounds(1,4) [OF ok(1) ok(3)]
  note by' = mid_bounds(1,4) [OF ok(2) ok(4)]
  show ?thesis
    by (subst BuildNode.simps)
       (simp only: assms(2) if_False Let_def fst_conv snd_conv bx by' simp_thms if_True)
qed

lemma BuildNode_leaf:
  "BuildNode dflt img p p = Some (Node p p (getPixel img (fst p) (snd p)) nullptr nullptr nullptr nullptr)"
  by (subst BuildNode.simps) simp

text \<open>\<^verbatim>\<open>BuildNode\<close> returns on every good rectangle.\<close>

lemma BuildNode_returns_aux:
  "region_ok ul lr \<Longrightarrow> n = region_size ul lr \<Longrightarrow> \<exists>t. BuildNode dflt img ul lr = Some t"
proof (induction n arbitrary: ul lr rule: less_induct)
  case (less n)
  obtain ux uy lx ly where ul: "ul = (ux, uy)" and lr: "lr = (lx, ly)"
    by (cases ul, cases lr)
  show ?case
  proof (cases "ul = lr")
    case True
    then show ?thesis by (simp add: BuildNode_leaf)
  next
    case False
    then have neq: "(ux, uy) \<noteq> (lx, ly)" by (simp add: ul lr)
    have ok: "region_ok (ux, uy) (lx, ly)" using less.prems(1) by (simp add: ul lr)
    have n: "n = region_size (ux, uy) (lx, ly)" using less.prems(2) by (simp add: ul lr)
    note sp = split_regions [OF ok neq, folded n]
    define mx where "mx = (ux + lx) div 2"
    define my where "my = (uy + ly) div 2"
    note sp' = sp [folded mx_def my_def]
    obtain t1 where t1: "BuildNode dflt img (ux, uy) (mx, my) = Some t1"
      using less.IH [OF _ _ refl, of "(ux, uy)" "(mx, my)"] sp'(1) by auto
    have "\<exists>t. (if ux < lx then BuildNode dflt img (mx + 1, uy) (lx, my) else Some nullptr) = Some t"
    proof (cases "ux < lx")
      case True
      then show ?thesis
        using less.IH [OF _ _ refl, of "(mx + 1, uy)" "(lx, my)"] sp'(2) by simp
    next
      case False
      then show ?thesis by simp
    qed
    then obtain t2 where t2:
      "(if ux < lx then BuildNode dflt img (mx + 1, uy) (lx, my) else Some nullptr) = Some t2" ..
    have "\<exists>t. (if uy < ly then BuildNode dflt img (ux, my + 1) (mx, ly) else Some nullptr) = Some t"
    proof (cases "uy < ly")
      case True
      then show ?thesis
        using less.IH [OF _ _ refl, of "(ux, my + 1)" "(mx, ly)"] sp'(3) by simp
    next
      case False
      then show ?thesis by simp
    qed
    then obtain t3 where t3:
      "(if uy < ly then BuildNode dflt img (ux, my + 1) (mx, ly) else Some nullptr) = Some t3" ..
    have "\<exists>t. (if ux < lx \<and> uy < ly then BuildNode dflt img (mx + 1, my + 1) (lx, ly) else Some nullptr) = Some t"
    proof (cases "ux < lx \<and> uy < ly")
      case True
      then show ?thesis
        using less.IH [OF _ _ refl, of "(mx + 1, my + 1)" "(lx, ly)"] sp'(4) by simp
    next
      case False
      then show ?thesis by auto
    qed
    then obtain t4 where t4:
      "(if ux < lx \<and> uy < ly then BuildNode dflt img (mx + 1, my + 1) (lx, ly) else Some nullptr) = Some t4" ..
    show ?thesis
      unfolding ul lr
      by (subst BuildNode_unfold [OF ok neq])
         (simp only: mx_def [symmetric] my_def [symmetric] t1 t2 t3 t4 Option.bind.simps
            option.inject simp_thms)
  qed
qed

lemma BuildNode_returns:
  "region_ok ul lr \<Longrightarrow> \<exists>t. BuildNode dflt img ul lr = Some t"
  by (rule BuildNode_returns_aux [OF _ refl])


text \<open>
  Induction over the calls of \<^verbatim>\<open>BuildNode\<close> on a good rectangle: a single
  pixel gives a leaf; a larger rectangle always has its NW child, its eastern
  children when it is more than one pixel wide, and its southern children
  when it is more than one pixel tall.
\<close>

lemma BuildNode_induct_aux:
  assumes leaf: "\<And>p. region_ok p p \<Longrightarrow>
     P p p (Node p p (getPixel img (fst p) (snd p)) nullptr nullptr nullptr nullptr)"
  and split: "\<And>ux uy lx ly mx my nw ne sw se.
     region_ok (ux, uy) (lx, ly) \<Longrightarrow> (ux, uy) \<noteq> (lx, ly) \<Longrightarrow>
     mx = (ux + lx) div 2 \<Longrightarrow> my = (uy + ly) div 2 \<Longrightarrow>
     BuildNode dflt img (ux, uy) (mx, my) = Some nw \<Longrightarrow> P (ux, uy) (mx, my) nw \<Longrightarrow>
     (if ux < lx
      then BuildNode dflt img (mx + 1, uy) (lx, my) = Some ne \<and> P (mx + 1, uy) (lx, my) ne
      else ne = nullptr) \<Longrightarrow>
     (if uy < ly
      then BuildNode dflt img (ux, my + 1) (mx, ly) = Some sw \<and> P (ux, my + 1) (mx, ly) sw
      else sw = nullptr) \<Longrightarrow>
     (if ux < lx \<and> uy < ly
      then BuildNode dflt img (mx + 1, my + 1) (lx, ly) = Some se \<and> P (mx + 1, my + 1) (lx, ly) se
      else se = nullptr) \<Longrightarrow>
     P (ux, uy) (lx, ly) (Node (ux, uy) (lx, ly) (CalculateAverageColor dflt nw ne sw se) nw ne sw se)"
  shows "region_ok ul lr \<Longrightarrow> n = region_size ul lr \<Longrightarrow>
         BuildNode dflt img ul lr = Some t \<Longrightarrow> P ul lr t"
proof (induction n arbitrary: ul lr t rule: less_induct)
  case (less n)
  obtain ux uy lx ly where ul: "ul = (ux, uy)" and lr: "lr = (lx, ly)"
    by (cases ul, cases lr)
  show ?case
  proof (cases "ul = lr")
    case True
    then show ?thesis
      using less.prems leaf [of ul] by (simp add: BuildNode_leaf)
  next
    case False
    then have neq: "(ux, uy) \<noteq> (lx, ly)" by (simp add: ul lr)
    have ok: "region_ok (ux, uy) (lx, ly)" using less.prems(1) by (simp add: ul lr)
    have n: "n = region_size (ux, uy) (lx, ly)" using less.prems(2) by (simp add: ul lr)
    note sp = split_regions [OF ok neq, folded n]
    define mx where "mx = (ux + lx) div 2"
    define my where "my = (uy + ly) div 2"
    note sp' = sp [folded mx_def my_def]
    from less.prems(3) obtain nw ne sw se where
      nw: "BuildNode dflt img (ux, uy) (mx, my) = Some nw" and
      ne: "(if ux < lx then BuildNode dflt img (mx + 1, uy) (lx, my) else Some nullptr) = Some ne" and
      sw: "(if uy < ly then BuildNode dflt img (ux, my + 1) (mx, ly) else Some nullptr) = Some sw" and
      se: "(if ux < lx \<and> uy < ly then BuildNode dflt img (mx + 1, my + 1) (lx, ly) else Some nullptr) = Some se" and
      t: "t = Node (ux, uy) (lx, ly) (CalculateAverageColor dflt nw ne sw se) nw ne sw se"
      unfolding ul lr BuildNode_unfold [OF ok neq] mx_def [symmetric] my_def [symmetric]
        bind_eq_Some_conv
      by blast
    have 1: "P (ux, uy) (mx, my) nw"
      using less.IH [OF _ _ refl nw] sp'(1) by simp
    have 2: "if ux < lx
      then BuildNode dflt img (mx + 1, uy) (lx, my) = Some ne \<and> P (mx + 1, uy) (lx, my) ne
      else ne = nullptr"
      using less.IH [OF _ _ refl, of "(mx + 1, uy)" "(lx, my)" ne] sp'(2) ne
      by (cases "ux < lx") simp_all
    have 3: "if uy < ly
      then BuildNode dflt img (ux, my + 1) (mx, ly) = Some sw \<and> P (ux, my + 1) (mx, ly) sw
      else sw = nullptr"
      using less.IH [OF _ _ refl, of "(ux, my + 1)" "(mx, ly)" sw] sp'(3) sw
      by (cases "uy < ly") simp_all
    have 4: "if ux < lx \<and> uy < ly
      then BuildNode dflt img (mx + 1, my + 1) (lx, ly) = Some se \<and> P (mx + 1, my + 1) (lx, ly) se
      else se = nullptr"
    proof (cases "ux < lx \<and> uy < ly")
      case True
      then show ?thesis
        using less.IH [OF _ _ refl, of "(mx + 1, my + 1)" "(lx, ly)" se] sp'(4) se by simp
    next
      case False
      then have "se = nullptr" using se by auto
      then show ?thesis using False by auto
    qed
    show ?thesis
      unfolding ul lr t
      by (rule split [OF ok neq mx_def my_def nw 1 2 3 4])
  qed
qed

lemma BuildNode_induct [consumes 2, case_names leaf split]:
  assumes "region_ok ul lr" "BuildNode dflt img ul lr = Some t"
  and "\<And>p. region_ok p p \<Longrightarrow>
     P p p (Node p p (getPixel img (fst p) (snd p)) nullptr nullptr nullptr nullptr)"
  and "\<And>ux uy lx ly mx my nw ne sw se.
     region_ok (ux, uy) (lx, ly) \<Longrightarrow> (ux, uy) \<noteq> (lx, ly) \<Longrightarrow>
     mx = (ux + lx) div 2 \<Longrightarrow> my = (uy + ly) div 2 \<Longrightarrow>
     BuildNode dflt img (ux, uy) (mx, my) = Some nw \<Longrightarrow> P (ux, uy) (mx, my) nw \<Longrightarrow>
     (if ux < lx
      then BuildNode dflt img (mx + 1, uy) (lx, my) = Some ne \<and> P (mx + 1, uy) (lx, my) ne
      else ne = nullptr) \<Longrightarrow>
     (if uy < ly
      then BuildNode dflt img (ux, my + 1) (mx, ly) = Some sw \<and> P (ux, my + 1) (mx, ly) sw
      else sw = nullptr) \<Longrightarrow>
     (if ux < lx \<and> uy < ly
      then BuildNode dflt img (mx + 1, my + 1) (lx, ly) = Some se \<and> P (mx + 1, my + 1) (lx, ly) se
      else se = nullptr) \<Longrightarrow>
     P (ux, uy) (lx, ly) (Node (ux, uy) (lx, ly) (CalculateAverageColor dflt nw ne sw se) nw ne sw se)"
  shows "P ul lr t"
  by (rule BuildNode_induct_aux [of P img dflt, OF assms(3) assms(4) assms(1) refl assms(2)])

text \<open>A built node carries the rectangle it was built for.\<close>

lemma BuildNode_rect:
  assumes "region_ok ul lr" "BuildNode dflt img ul lr = Some t"
  shows "t \<noteq> nullptr \<and> upLeft t = ul \<and> lowRight t = lr"
  using assms by (induction rule: BuildNode_induct) simp_all

section \<open>The freshly built tree\<close>

lemma word_lt_succ: "(l :: u32) < 2 ^ 31 \<Longrightarrow> (x < l + 1) = (x \<le> l)"
proof -
  assume "l < 2 ^ 31"
  then have "unat l < 2 ^ 31" by (simp add: word_less_nat_alt)
  then have "unat (l + 1) = unat l + 1" by (simp add: unat_word_ariths)
  then show ?thesis by (simp add: word_le_nat_alt word_less_nat_alt less_Suc_eq_le)
qed

lemma covers_1:
  "fst lr < 2 ^ 31 \<Longrightarrow> snd lr < 2 ^ 31 \<Longrightarrow> covers ul lr 1 x y = in_rect ul lr x y"
  by (simp add: covers_def in_rect_def word_lt_succ)

text \<open>How the rectangles of a split divide the pixels of the parent.\<close>

lemma split_in_rect:
  assumes ok: "region_ok (ux, uy) (lx, ly)"
  defines "mx \<equiv> (ux + lx) div 2" and "my \<equiv> (uy + ly) div 2"
  shows "in_rect (ux, uy) (mx, my) x y \<longleftrightarrow> in_rect (ux, uy) (lx, ly) x y \<and> x \<le> mx \<and> y \<le> my"
    and "in_rect (mx + 1, uy) (lx, my) x y \<longleftrightarrow> in_rect (ux, uy) (lx, ly) x y \<and> mx < x \<and> y \<le> my"
    and "in_rect (ux, my + 1) (mx, ly) x y \<longleftrightarrow> in_rect (ux, uy) (lx, ly) x y \<and> x \<le> mx \<and> my < y"
    and "in_rect (mx + 1, my + 1) (lx, ly) x y \<longleftrightarrow> in_rect (ux, uy) (lx, ly) x y \<and> mx < x \<and> my < y"
    and "\<not> ux < lx \<Longrightarrow> in_rect (ux, uy) (lx, ly) x y \<Longrightarrow> x \<le> mx"
    and "\<not> uy < ly \<Longrightarrow> in_rect (ux, uy) (lx, ly) x y \<Longrightarrow> y \<le> my"
proof -
  from ok have k: "ux \<le> lx" "uy \<le> ly" "lx < 2 ^ 31" "ly < 2 ^ 31"
    by (simp_all add: region_ok_def)
  note bx = mid_bounds(1,2,5,6) [OF k(1) k(3), folded mx_def]
  note by' = mid_bounds(1,2,5,6) [OF k(2) k(4), folded my_def]
  show "in_rect (ux, uy) (mx, my) x y \<longleftrightarrow> in_rect (ux, uy) (lx, ly) x y \<and> x \<le> mx \<and> y \<le> my"
    using bx(1,2) by'(1,2) by (auto simp: in_rect_def)
  show "in_rect (mx + 1, uy) (lx, my) x y \<longleftrightarrow> in_rect (ux, uy) (lx, ly) x y \<and> mx < x \<and> y \<le> my"
    using bx(1,2) by'(1,2) by (auto simp: in_rect_def bx(3))
  show "in_rect (ux, my + 1) (mx, ly) x y \<longleftrightarrow> in_rect (ux, uy) (lx, ly) x y \<and> x \<le> mx \<and> my < y"
    using bx(1,2) by'(1,2) by (auto simp: in_rect_def by'(3))
  show "in_rect (mx + 1, my + 1) (lx, ly) x y \<longleftrightarrow> in_rect (ux, uy) (lx, ly) x y \<and> mx < x \<and> my < y"
    using bx(1,2) by'(1,2) by (auto simp: in_rect_def bx(3) by'(3))
  show "x \<le> mx" if "\<not> ux < lx" "in_rect (ux, uy) (lx, ly) x y"
  proof -
    have "ux = lx" using that(1) k(1) by simp
    then have "mx = lx" using bx(4) by simp
    then show ?thesis using that(2) by (simp add: in_rect_def)
  qed
  show "y \<le> my" if "\<not> uy < ly" "in_rect (ux, uy) (lx, ly) x y"
  proof -
    have "uy = ly" using that(1) k(2) by simp
    then have "my = ly" using by'(4) by simp
    then show ?thesis using that(2) by (simp add: in_rect_def)
  qed
qed

lemma BuildNode_drawn:
  assumes "region_ok ul lr" "BuildNode dflt img ul lr = Some t"
  shows "drawn t 1 x y = (if in_rect ul lr x y then Some (getPixel img x y) else None)"
  using assms
proof (induction rule: BuildNode_induct)
  case (leaf p)
  then show ?case
    by (auto simp: IsLeaf_def covers_1 region_ok_def in_rect_def)
next
  case (split ux uy lx ly mx my nw ne sw se)
  note sp = split_regions [OF split(1,2), folded split(3,4)]
  note ir = split_in_rect [OF split(1), folded split(3,4)]
  have nw: "nw \<noteq> nullptr" using BuildNode_rect [OF _ split(5)] sp(1) by simp
  then have nl: "\<not> IsLeaf (Node (ux, uy) (lx, ly) (CalculateAverageColor dflt nw ne sw se) nw ne sw se)"
    by (simp add: IsLeaf_def)
  have dnw: "drawn nw 1 x y = (if in_rect (ux, uy) (lx, ly) x y \<and> x \<le> mx \<and> y \<le> my then Some (getPixel img x y) else None)"
    using split(6) by (simp add: ir(1))
  have dne: "drawn ne 1 x y = (if in_rect (ux, uy) (lx, ly) x y \<and> mx < x \<and> y \<le> my then Some (getPixel img x y) else None)"
  proof (cases "ux < lx")
    case True
    then show ?thesis using split(7) by (simp add: ir(2))
  next
    case False
    then have "ne = nullptr" using split(7) by simp
    then show ?thesis using ir(5) [OF False, of x y] by (auto dest: leD)
  qed
  have dsw: "drawn sw 1 x y = (if in_rect (ux, uy) (lx, ly) x y \<and> x \<le> mx \<and> my < y then Some (getPixel img x y) else None)"
  proof (cases "uy < ly")
    case True
    then show ?thesis using split(8) by (simp add: ir(3))
  next
    case False
    then have "sw = nullptr" using split(8) by simp
    then show ?thesis using ir(6) [OF False, of x y] by (auto dest: leD)
  qed
  have dse: "drawn se 1 x y = (if in_rect (ux, uy) (lx, ly) x y \<and> mx < x \<and> my < y then Some (getPixel img x y) else None)"
  proof (cases "ux < lx \<and> uy < ly")
    case True
    then show ?thesis using split(9) by (simp add: ir(4))
  next
    case False
    then have "se = nullptr" using split(9) by auto
    then show ?thesis using ir(5) [of x y] ir(6) [of x y] False by (auto dest: leD)
  qed
  show ?case
    unfolding drawn.simps if_not_P [OF nl] dnw dne dsw dse
    by (auto simp: not_le)
qed


lemma leaf_count_simps:
  "leaf_count nullptr x y = 0"
  "IsLeaf (Node ul lr c nw ne sw se) \<Longrightarrow>
     leaf_count (Node ul lr c nw ne sw se) x y = (if in_rect ul lr x y then 1 else 0)"
  "\<not> IsLeaf (Node ul lr c nw ne sw se) \<Longrightarrow>
     leaf_count (Node ul lr c nw ne sw se) x y =
       leaf_count nw x y + leaf_count ne x y + leaf_count sw x y + leaf_count se x y"
  by (simp_all add: leaf_count_def)

lemma BuildNode_leaf_count:
  assumes "region_ok ul lr" "BuildNode dflt img ul lr = Some t"
  shows "leaf_count t x y = (if in_rect ul lr x y then 1 else 0)"
  using assms
proof (induction rule: BuildNode_induct)
  case (leaf p)
  then show ?case
    by (simp add: leaf_count_simps IsLeaf_def)
next
  case (split ux uy lx ly mx my nw ne sw se)
  note sp = split_regions [OF split(1,2), folded split(3,4)]
  note ir = split_in_rect [OF split(1), folded split(3,4)]
  have nw: "nw \<noteq> nullptr" using BuildNode_rect [OF _ split(5)] sp(1) by simp
  then have nl: "\<not> IsLeaf (Node (ux, uy) (lx, ly) (CalculateAverageColor dflt nw ne sw se) nw ne sw se)"
    by (simp add: IsLeaf_def)
  have dnw: "leaf_count nw x y = (if in_rect (ux, uy) (lx, ly) x y \<and> x \<le> mx \<and> y \<le> my then 1 else 0)"
    using split(6) by (simp add: ir(1))
  have dne: "leaf_count ne x y = (if in_rect (ux, uy) (lx, ly) x y \<and> mx < x \<and> y \<le> my then 1 else 0)"
  proof (cases "ux < lx")
    case True
    then show ?thesis using split(7) by (simp add: ir(2))
  next
    case False
    then have "ne = nullptr" using split(7) by simp
    then show ?thesis using ir(5) [OF False, of x y] by (auto simp: leaf_count_simps dest: leD)
  qed
  have dsw: "leaf_count sw x y = (if in_rect (ux, uy) (lx, ly) x y \<and> x \<le> mx \<and> my < y then 1 else 0)"
  proof (cases "uy < ly")
    case True
    then show ?thesis using split(8) by (simp add: ir(3))
  next
    case False
    then have "sw = nullptr" using split(8) by simp
    then show ?thesis using ir(6) [OF False, of x y] by (auto simp: leaf_count_simps dest: leD)
  qed
  have dse: "leaf_count se x y = (if in_rect (ux, uy) (lx, ly) x y \<and> mx < x \<and> my < y then 1 else 0)"
  proof (cases "ux < lx \<and> uy < ly")
    case True
    then show ?thesis using split(9) by (simp add: ir(4))
  next
    case False
    then have "se = nullptr" using split(9) by auto
    then show ?thesis using ir(5) [of x y] ir(6) [of x y] False
      by (auto simp: leaf_count_simps dest: leD)
  qed
  show ?case
    unfolding leaf_count_simps(3) [OF nl] dnw dne dsw dse
    by (auto simp: not_le)
qed

text \<open>The rectangle of the whole image.\<close>

lemma image_region:
  assumes "image_ok img"
  shows "region_ok (0, 0) (png_width img - 1, png_height img - 1)"
    and "in_rect (0, 0) (png_width img - 1, png_height img - 1) x y \<longleftrightarrow>
           x < png_width img \<and> y < png_height img"
proof -
  have sub: "(w - 1 < 2 ^ 31) \<and> (p \<le> w - 1 \<longleftrightarrow> p < w)" if "0 < w" "w \<le> 2 ^ 31" for w p :: u32
  proof -
    have "0 < unat w" "unat w \<le> 2 ^ 31"
      using that by (simp_all add: word_less_nat_alt word_le_nat_alt)
    moreover have "unat (w - 1) = unat w - 1"
      using that(1) by (simp add: unat_minus_one word_neq_0_conv)
    ultimately show ?thesis
      by (auto simp: word_less_nat_alt word_le_nat_alt)
  qed
  from assms have k: "0 < png_width img" "png_width img \<le> 2 ^ 31"
    "0 < png_height img" "png_height img \<le> 2 ^ 31"
    by (simp_all add: image_ok_def)
  show "region_ok (0, 0) (png_width img - 1, png_height img - 1)"
    using sub [OF k(1,2)] sub [OF k(3,4)] k by (simp add: region_ok_def)
  show "in_rect (0, 0) (png_width img - 1, png_height img - 1) x y \<longleftrightarrow>
           x < png_width img \<and> y < png_height img"
    using sub [OF k(1,2), of x] sub [OF k(3,4), of y] by (simp add: in_rect_def)
qed

text \<open>
  C1. For every image with sides between 1 and \<open>2^31\<close>, the constructor
  returns a tree, and \<^verbatim>\<open>Render(1)\<close> of that freshly built, unpruned tree is
  the source image: the same dimensions and the same pixel at every
  coordinate.
\<close>

theorem C1_render_roundtrip:
  assumes "image_ok img"
  shows "\<exists>t. QTree_ctor dflt img = Some t \<and> same_image (Render dflt t 1) img"
proof -
  note reg = image_region [OF assms]
  obtain n where n: "BuildNode dflt img (0, 0) (png_width img - 1, png_height img - 1) = Some n"
    using BuildNode_returns [OF reg(1)] by blast
  define t where "t = \<lparr>width = png_width img, height = png_height img, root = n\<rparr>"
  have t: "QTree_ctor dflt img = Some t"
    by (simp add: QTree_ctor_def n t_def)
  have "same_image (Render dflt t 1) img"
    unfolding same_image_def
    by (simp add: Render_getPixel t_def BuildNode_drawn [OF reg(1) n] reg(2))
  with t show ?thesis by blast
qed

text \<open>
  C5. For every image of width \<open>W\<close> and height \<open>H\<close> (sides between 1 and
  \<open>2^31\<close>), the leaf rectangles of the freshly built tree tile
  \<open>[0,W) \<times> [0,H)\<close>: every pixel of the image lies in exactly one leaf
  rectangle, counted with multiplicity, and no leaf rectangle holds a pixel
  outside the image.
\<close>

theorem C5_leaves_tile:
  assumes "image_ok img"
  shows "\<exists>t. QTree_ctor dflt img = Some t \<and>
           (\<forall>x y. leaf_count (root t) x y =
                    (if x < png_width img \<and> y < png_height img then 1 else 0))"
proof -
  note reg = image_region [OF assms]
  obtain n where n: "BuildNode dflt img (0, 0) (png_width img - 1, png_height img - 1) = Some n"
    using BuildNode_returns [OF reg(1)] by blast
  define t where "t = \<lparr>width = png_width img, height = png_height img, root = n\<rparr>"
  have t: "QTree_ctor dflt img = Some t"
    by (simp add: QTree_ctor_def n t_def)
  have "leaf_count (root t) x y = (if x < png_width img \<and> y < png_height img then 1 else 0)" for x y
    by (simp add: t_def BuildNode_leaf_count [OF reg(1) n] reg(2))
  with t show ?thesis by blast
qed

theorem C5_witness:
  "\<exists>t. QTree_ctor dflt0 img0 = Some t \<and>
         (\<forall>x y. leaf_count (root t) x y =
                  (if x < png_width img0 \<and> y < png_height img0 then 1 else 0))"
  using C5_leaves_tile [of img0 dflt0] by (simp add: image_ok_def img0_def)

theorem C1_witness:
  "\<exists>t. QTree_ctor dflt0 img0 = Some t \<and> same_image (Render dflt0 t 1) img0"
  using C1_render_roundtrip [of img0 dflt0] by (simp add: image_ok_def img0_def)

section \<open>Flipping twice\<close>

text \<open>
  Remapping a node's own columns twice gives the node back, also where the
  subtractions wrap around; remapping a node commutes with flipping below it.
\<close>

lemma UpdateCoordinatesAfterFlip_twice:
  "UpdateCoordinatesAfterFlip w (UpdateCoordinatesAfterFlip w node) = node"
  by (cases node) (simp_all add: Let_def)

lemma Flip_Update_commute:
  "FlipNodeHorizontal w (UpdateCoordinatesAfterFlip w node) =
   UpdateCoordinatesAfterFlip w (FlipNodeHorizontal w node)"
  by (cases node) (simp_all add: Let_def)

lemma FlipNodeHorizontal_twice:
  "FlipNodeHorizontal w (FlipNodeHorizontal w node) = node"
proof (induction node)
  case nullptr
  show ?case by simp
next
  case (Node ul lr c nw ne sw se)
  have twice: "FlipNodeHorizontal w (UpdateCoordinatesAfterFlip w
                 (FlipNodeHorizontal w (UpdateCoordinatesAfterFlip w n))) = n"
    if "FlipNodeHorizontal w (FlipNodeHorizontal w n) = n" for n :: "'a NodePtr"
  proof -
    have "FlipNodeHorizontal w (UpdateCoordinatesAfterFlip w
            (FlipNodeHorizontal w (UpdateCoordinatesAfterFlip w n))) =
          UpdateCoordinatesAfterFlip w (UpdateCoordinatesAfterFlip w
            (FlipNodeHorizontal w (FlipNodeHorizontal w n)))"
      by (simp only: Flip_Update_commute)
    then show ?thesis
      by (simp only: UpdateCoordinatesAfterFlip_twice that)
  qed
  show ?case
    by (simp add: twice Node.IH)
qed

lemma FlipHorizontal_twice: "FlipHorizontal (FlipHorizontal t) = t"
  by (simp add: FlipHorizontal_def FlipNodeHorizontal_twice)

text \<open>
  C6. For every tree, of any shape and with any rectangles,
  \<^verbatim>\<open>FlipHorizontal(); FlipHorizontal();\<close> leaves \<^verbatim>\<open>Render(1)\<close> as it was:
  the two flips restore the tree itself.
\<close>

theorem C6_flip_twice_render:
  "Render dflt (FlipHorizontal (FlipHorizontal t)) 1 = Render dflt t 1"
  by (simp only: FlipHorizontal_twice)

section \<open>The mirror image\<close>

lemma word_lt_succ': "(l :: u32) < w \<Longrightarrow> (x < l + 1) = (x \<le> l)"
proof -
  assume "l < w"
  then have "unat l < unat w" by (simp add: word_less_nat_alt)
  then have "unat l < 2 ^ 32 - 1"
    using unsigned_less [of w, where 'a = nat] by simp
  then have "unat (l + 1) = unat l + 1" by (simp add: unat_word_ariths)
  then show ?thesis by (simp add: word_le_nat_alt word_less_nat_alt less_Suc_eq_le)
qed

lemma covers_1': "fst lr < W \<Longrightarrow> snd lr < H \<Longrightarrow> covers ul lr 1 x y = in_rect ul lr x y"
  by (simp add: covers_def in_rect_def word_lt_succ')

lemma unat_mirror: "(l :: u32) < W \<Longrightarrow> unat (W - 1 - l) = unat W - 1 - unat l"
proof -
  assume l: "l < W"
  then have "0 < W" by (metis word_not_simps(1) word_neq_0_conv)
  then have 1: "unat (W - 1) = unat W - 1" by (simp add: unat_minus_one word_neq_0_conv)
  have "unat l < unat W" using l by (simp add: word_less_nat_alt)
  then have "l \<le> W - 1" by (simp add: word_le_nat_alt 1)
  then show ?thesis by (simp add: unat_sub 1)
qed

lemma mirror_facts:
  fixes W :: u32
  assumes "l < W" "x < W"
  shows "(W - 1 - l \<le> x) = (W - 1 - x \<le> l)"
    and "(x \<le> W - 1 - l) = (l \<le> W - 1 - x)"
    and "W - 1 - l < W"
    and "(W - 1 - l \<le> W - 1 - x) = (x \<le> l)"
    and "(W - 1 - l < W - 1 - x) = (x < l)"
    and "W - 1 - (W - 1 - l) = l"
proof -
  have n: "unat l < unat W" "unat x < unat W"
    using assms by (simp_all add: word_less_nat_alt)
  note u = unat_mirror [OF assms(1)] unat_mirror [OF assms(2)]
  show "(W - 1 - l \<le> x) = (W - 1 - x \<le> l)"
    using n by (simp add: word_le_nat_alt u) arith
  show "(x \<le> W - 1 - l) = (l \<le> W - 1 - x)"
    using n by (simp add: word_le_nat_alt u) arith
  show "W - 1 - l < W"
    using n by (simp add: word_less_nat_alt u) 
  show "(W - 1 - l \<le> W - 1 - x) = (x \<le> l)"
    using n by (simp add: word_le_nat_alt u) arith
  show "(W - 1 - l < W - 1 - x) = (x < l)"
    using n by (simp add: word_less_nat_alt u) arith
  show "W - 1 - (W - 1 - l) = l" by simp
qed


lemma Flip_Update_Node:
  "FlipNodeHorizontal W (UpdateCoordinatesAfterFlip W (Node ul lr c nw ne sw se)) =
     Node (W - 1 - fst lr, snd ul) (W - 1 - fst ul, snd lr) c
       (FlipNodeHorizontal W (UpdateCoordinatesAfterFlip W ne))
       (FlipNodeHorizontal W (UpdateCoordinatesAfterFlip W nw))
       (FlipNodeHorizontal W (UpdateCoordinatesAfterFlip W se))
       (FlipNodeHorizontal W (UpdateCoordinatesAfterFlip W sw))"
  by (simp add: Let_def)

lemma Flip_Update_null [simp]:
  "(FlipNodeHorizontal W (UpdateCoordinatesAfterFlip W n) = nullptr) = (n = nullptr)"
  by (cases n) (simp_all add: Let_def)

lemma Flip_Update_rect:
  "n \<noteq> nullptr \<Longrightarrow>
     upLeft (FlipNodeHorizontal W (UpdateCoordinatesAfterFlip W n)) =
       (W - 1 - fst (lowRight n), snd (upLeft n)) \<and>
     lowRight (FlipNodeHorizontal W (UpdateCoordinatesAfterFlip W n)) =
       (W - 1 - fst (upLeft n), snd (lowRight n))"
  by (cases n) (simp_all add: Let_def)

lemma in_rect_mirror:
  assumes "fst ul \<le> fst lr" "fst lr < W" "x < W"
  shows "in_rect (W - 1 - fst lr, snd ul) (W - 1 - fst ul, snd lr) x y =
         in_rect ul lr (W - 1 - x) y"
proof -
  have u: "fst ul < W" using assms(1,2) by simp
  show ?thesis
    unfolding in_rect_def fst_conv snd_conv
    using mirror_facts(1) [OF assms(2,3)] mirror_facts(2) [OF u assms(3)] by auto
qed

text \<open>In a well-formed subtree, only pixels of a node's own rectangle are drawn.\<close>

lemma inside_in_rect:
  "inside k ul lr \<Longrightarrow> k \<noteq> nullptr \<Longrightarrow> in_rect (upLeft k) (lowRight k) x y \<Longrightarrow> in_rect ul lr x y"
  by (auto simp: inside_def in_rect_def)

lemma apart_in_rect:
  "apart k k' \<Longrightarrow> k \<noteq> nullptr \<Longrightarrow> k' \<noteq> nullptr \<Longrightarrow>
   in_rect (upLeft k) (lowRight k) x y \<Longrightarrow> in_rect (upLeft k') (lowRight k') x y \<Longrightarrow> False"
  by (auto simp: apart_def in_rect_def)

lemma drawn_in_rect:
  "wf_node W H n \<Longrightarrow> drawn n 1 x y = Some c \<Longrightarrow>
   n \<noteq> nullptr \<and> in_rect (upLeft n) (lowRight n) x y"
proof (induction n)
  case nullptr
  then show ?case by simp
next
  case (Node ul lr c' nw ne sw se)
  show ?case
  proof (cases "IsLeaf (Node ul lr c' nw ne sw se)")
    case True
    then show ?thesis
      using Node.prems by (auto simp: covers_1' split: if_splits)
  next
    case False
    from Node.prems(2) False obtain k where
      k: "k \<in> {nw, ne, sw, se}" "drawn k 1 x y = Some c"
      by (auto split: option.splits)
    then have "wf_node W H k" "inside k ul lr" using Node.prems(1) by auto
    moreover have "k \<noteq> nullptr \<and> in_rect (upLeft k) (lowRight k) x y"
      using k Node.IH \<open>wf_node W H k\<close> by auto
    ultimately show ?thesis
      using inside_in_rect [of k ul lr x y] by simp
  qed
qed

lemma drawn_exclusive:
  assumes "wf_node W H k" "wf_node W H k'" "apart k k'"
  shows "drawn k 1 x y = None \<or> drawn k' 1 x y = None"
proof (rule ccontr)
  assume "\<not> ?thesis"
  then obtain c c' where "drawn k 1 x y = Some c" "drawn k' 1 x y = Some c'" by auto
  then show False
    using drawn_in_rect [OF assms(1)] drawn_in_rect [OF assms(2)] apart_in_rect [OF assms(3)]
    by blast
qed

lemma apart_sym: "apart k k' \<Longrightarrow> apart k' k"
  by (auto simp: apart_def)

text \<open>Remapping and flipping a well-formed subtree draws its mirror image.\<close>

lemma drawn_Flip_Update:
  "wf_node W H n \<Longrightarrow> x < W \<Longrightarrow>
   drawn (FlipNodeHorizontal W (UpdateCoordinatesAfterFlip W n)) 1 x y = drawn n 1 (W - 1 - x) y"
proof (induction n)
  case nullptr
  show ?case by simp
next
  case (Node ul lr c nw ne sw se)
  from Node.prems(1) have wf: "wf_node W H nw" "wf_node W H ne" "wf_node W H sw" "wf_node W H se"
    and ap: "apart nw ne" "apart nw sw" "apart nw se" "apart ne sw" "apart ne se" "apart sw se"
    and rc: "fst ul \<le> fst lr" "fst lr < W" "snd lr < H"
    by simp_all
  note IH = Node.IH(1) [OF wf(1) Node.prems(2)] Node.IH(2) [OF wf(2) Node.prems(2)]
    Node.IH(3) [OF wf(3) Node.prems(2)] Node.IH(4) [OF wf(4) Node.prems(2)]
  have m: "W - 1 - fst ul < W" using mirror_facts(3) [of "fst ul" W] rc Node.prems(2) by simp
  show ?case
  proof (cases "IsLeaf (Node ul lr c nw ne sw se)")
    case True
    then show ?thesis
      unfolding Flip_Update_Node
      using in_rect_mirror [OF rc(1,2) Node.prems(2)] rc m
      by (simp add: IsLeaf_def covers_1' [where W = W and H = H])
  next
    case False
    then have nl: "\<not> IsLeaf (Node (W - 1 - fst lr, snd ul) (W - 1 - fst ul, snd lr) c
       (FlipNodeHorizontal W (UpdateCoordinatesAfterFlip W ne))
       (FlipNodeHorizontal W (UpdateCoordinatesAfterFlip W nw))
       (FlipNodeHorizontal W (UpdateCoordinatesAfterFlip W se))
       (FlipNodeHorizontal W (UpdateCoordinatesAfterFlip W sw)))"
      by (auto simp: IsLeaf_def)
    note ex = drawn_exclusive [OF wf(1) wf(2) ap(1), of "W - 1 - x" y]
      drawn_exclusive [OF wf(1) wf(3) ap(2), of "W - 1 - x" y]
      drawn_exclusive [OF wf(1) wf(4) ap(3), of "W - 1 - x" y]
      drawn_exclusive [OF wf(2) wf(3) ap(4), of "W - 1 - x" y]
      drawn_exclusive [OF wf(2) wf(4) ap(5), of "W - 1 - x" y]
      drawn_exclusive [OF wf(3) wf(4) ap(6), of "W - 1 - x" y]
    show ?thesis
      unfolding Flip_Update_Node drawn.simps if_not_P [OF nl] if_not_P [OF False] IH
      using ex by (auto split: option.splits)
  qed
qed


lemma wf_node_rect:
  "wf_node W H n \<Longrightarrow> n \<noteq> nullptr \<Longrightarrow>
   fst (upLeft n) \<le> fst (lowRight n) \<and> fst (lowRight n) < W \<and>
   snd (upLeft n) \<le> snd (lowRight n) \<and> snd (lowRight n) < H"
  by (cases n) simp_all

lemma inside_Flip_Update:
  assumes "inside k ul lr" "wf_node W H k" "fst lr < W"
  shows "inside (FlipNodeHorizontal W (UpdateCoordinatesAfterFlip W k))
           (W - 1 - fst lr, snd ul) (W - 1 - fst ul, snd lr)"
proof (cases "k = nullptr")
  case True
  then show ?thesis by (simp add: inside_def)
next
  case False
  note rk = wf_node_rect [OF assms(2) False]
  from assms(1) False have i: "fst ul \<le> fst (upLeft k)" "fst (lowRight k) \<le> fst lr"
    "snd ul \<le> snd (upLeft k)" "snd (lowRight k) \<le> snd lr"
    by (simp_all add: inside_def)
  have lt: "fst (lowRight k) < W" "fst (upLeft k) < W" "fst ul < W"
    using rk i assms(3) by auto
  show ?thesis
    using False i
    by (simp add: inside_def Flip_Update_rect mirror_facts(4) [OF assms(3) lt(1)]
          mirror_facts(4) [OF lt(2) lt(3)])
qed

lemma apart_Flip_Update:
  assumes "apart k k'" "wf_node W H k" "wf_node W H k'"
  shows "apart (FlipNodeHorizontal W (UpdateCoordinatesAfterFlip W k'))
           (FlipNodeHorizontal W (UpdateCoordinatesAfterFlip W k))"
proof (cases "k = nullptr \<or> k' = nullptr")
  case True
  then show ?thesis by (auto simp: apart_def)
next
  case False
  then have nn: "k \<noteq> nullptr" "k' \<noteq> nullptr" by simp_all
  note rk = wf_node_rect [OF assms(2) nn(1)] and rk' = wf_node_rect [OF assms(3) nn(2)]
  have lt: "fst (lowRight k) < W" "fst (upLeft k) < W" "fst (lowRight k') < W" "fst (upLeft k') < W"
    using rk rk' by auto
  show ?thesis
    using assms(1) nn
    by (auto simp: apart_def Flip_Update_rect mirror_facts(5) [OF lt(4) lt(1)]
          mirror_facts(5) [OF lt(2) lt(3)])
qed

lemma wf_Flip_Update:
  "wf_node W H n \<Longrightarrow> wf_node W H (FlipNodeHorizontal W (UpdateCoordinatesAfterFlip W n))"
proof (induction n)
  case nullptr
  show ?case by simp
next
  case (Node ul lr c nw ne sw se)
  from Node.prems have wf: "wf_node W H nw" "wf_node W H ne" "wf_node W H sw" "wf_node W H se"
    and ap: "apart nw ne" "apart nw sw" "apart nw se" "apart ne sw" "apart ne se" "apart sw se"
    and ins: "inside nw ul lr" "inside ne ul lr" "inside sw ul lr" "inside se ul lr"
    and rc: "fst ul \<le> fst lr" "fst lr < W" "snd ul \<le> snd lr" "snd lr < H"
    by simp_all
  have u: "fst ul < W" using rc by simp
  show ?case
    unfolding Flip_Update_Node wf_node.simps fst_conv snd_conv
    using Node.IH wf rc
      inside_Flip_Update [OF ins(1) wf(1) rc(2)] inside_Flip_Update [OF ins(2) wf(2) rc(2)]
      inside_Flip_Update [OF ins(3) wf(3) rc(2)] inside_Flip_Update [OF ins(4) wf(4) rc(2)]
      apart_Flip_Update [OF ap(1) wf(1) wf(2)] apart_Flip_Update [OF ap(6) wf(3) wf(4)]
      apart_sym [OF apart_Flip_Update [OF ap(2) wf(1) wf(3)]]
      apart_sym [OF apart_Flip_Update [OF ap(3) wf(1) wf(4)]]
      apart_sym [OF apart_Flip_Update [OF ap(4) wf(2) wf(3)]]
      apart_sym [OF apart_Flip_Update [OF ap(5) wf(2) wf(4)]]
      mirror_facts(3) [OF u u] mirror_facts(4) [OF rc(2) u]
    by simp
qed

text \<open>
  The root itself is not remapped by \<^verbatim>\<open>FlipNodeHorizontal\<close>; its rectangle is
  the whole image, which is its own mirror image.
\<close>

lemma Flip_root:
  assumes "tree_ok t"
  shows "FlipNodeHorizontal (width t) (root t) =
         FlipNodeHorizontal (width t) (UpdateCoordinatesAfterFlip (width t) (root t))"
proof (cases "root t")
  case nullptr
  then show ?thesis by simp
next
  case (Node ul lr c nw ne sw se)
  then have "ul = (0, 0)" "lr = (width t - 1, height t - 1)"
    using assms by (simp_all add: tree_ok_def)
  then show ?thesis
    using Node by (simp add: Let_def)
qed

lemma nodes_Update [simp]:
  "length (nodes (UpdateCoordinatesAfterFlip W n)) = length (nodes n)"
  by (cases n) (simp_all add: Let_def)

lemma nodes_Flip: "length (nodes (FlipNodeHorizontal W n)) = length (nodes n)"
proof (induction n)
  case nullptr
  show ?case by simp
next
  case (Node ul lr c nw ne sw se)
  have "length (nodes (FlipNodeHorizontal W (UpdateCoordinatesAfterFlip W k))) = length (nodes k)"
    if "length (nodes (FlipNodeHorizontal W k)) = length (nodes k)" for k :: "'a NodePtr"
    using that by (simp add: Flip_Update_commute)
  then show ?case using Node.IH by simp
qed

lemma wf_node_increasing:
  "wf_node W H n \<Longrightarrow> k \<in> set (nodes n) \<Longrightarrow>
   fst (upLeft k) \<le> fst (lowRight k) \<and> snd (upLeft k) \<le> snd (lowRight k)"
  by (induction n) auto

lemma tree_ok_Flip:
  assumes "tree_ok t"
  shows "tree_ok (FlipHorizontal t)"
proof -
  have wf: "wf_node (width t) (height t) (root t)" using assms by (simp add: tree_ok_def)
  have "wf_node (width t) (height t) (FlipNodeHorizontal (width t) (root t))"
    unfolding Flip_root [OF assms] by (rule wf_Flip_Update [OF wf])
  moreover have "upLeft (FlipNodeHorizontal (width t) (root t)) = upLeft (root t) \<and>
      lowRight (FlipNodeHorizontal (width t) (root t)) = lowRight (root t)"
    if "root t \<noteq> nullptr"
    using that by (cases "root t") simp_all
  moreover have "(FlipNodeHorizontal (width t) (root t) = nullptr) = (root t = nullptr)"
    by (cases "root t") simp_all
  ultimately show ?thesis
    using assms by (auto simp: tree_ok_def FlipHorizontal_def)
qed

lemma Render_Flip_mirror:
  assumes "tree_ok t" "x < width t" "y < height t"
  shows "getPixel (Render dflt (FlipHorizontal t) 1) (width t - 1 - x) y =
         getPixel (Render dflt t 1) x y"
proof -
  have wf: "wf_node (width t) (height t) (root t)" using assms by (simp add: tree_ok_def)
  have m: "width t - 1 - x < width t" by (rule mirror_facts(3) [OF assms(2) assms(2)])
  have mm: "width t - 1 - (width t - 1 - x) = x" by simp
  have "drawn (FlipNodeHorizontal (width t) (root t)) 1 (width t - 1 - x) y = drawn (root t) 1 x y"
    unfolding Flip_root [OF assms(1)] drawn_Flip_Update [OF wf m] mm ..
  then show ?thesis
    using assms(2,3) m by (simp add: Render_getPixel FlipHorizontal_def)
qed


text \<open>The constructor establishes the invariant, and pruning keeps it.\<close>

lemma BuildNode_wf:
  assumes "region_ok ul lr" "BuildNode dflt img ul lr = Some t"
  shows "fst lr < W \<and> snd lr < H \<longrightarrow> wf_node W H t"
  using assms
proof (induction rule: BuildNode_induct)
  case (leaf p)
  show ?case by (simp add: inside_def apart_def)
next
  case (split ux uy lx ly mx my nw ne sw se)
  note sp = split_regions [OF split(1,2), folded split(3,4)]
  from split(1) have k: "ux \<le> lx" "uy \<le> ly" "lx < 2 ^ 31" "ly < 2 ^ 31"
    by (simp_all add: region_ok_def)
  note bx = mid_bounds(1,2,5,7) [OF k(1) k(3), folded split(3)]
  note by' = mid_bounds(1,2,5,7) [OF k(2) k(4), folded split(4)]
  have sx: "mx < mx + 1" using bx(3) [of "mx + 1"] by simp
  have sy: "my < my + 1" using by'(3) [of "my + 1"] by simp
  have rnw: "nw \<noteq> nullptr \<and> upLeft nw = (ux, uy) \<and> lowRight nw = (mx, my)"
    using BuildNode_rect [OF _ split(5)] sp(1) by simp
  have rne: "ne = nullptr \<or> (upLeft ne = (mx + 1, uy) \<and> lowRight ne = (lx, my))"
    using split(7) sp(2) BuildNode_rect [of "(mx + 1, uy)" "(lx, my)" dflt img ne]
    by (cases "ux < lx") simp_all
  have rsw: "sw = nullptr \<or> (upLeft sw = (ux, my + 1) \<and> lowRight sw = (mx, ly))"
    using split(8) sp(3) BuildNode_rect [of "(ux, my + 1)" "(mx, ly)" dflt img sw]
    by (cases "uy < ly") simp_all
  have rse: "se = nullptr \<or> (upLeft se = (mx + 1, my + 1) \<and> lowRight se = (lx, ly))"
  proof (cases "ux < lx \<and> uy < ly")
    case True
    then show ?thesis
      using split(9) sp(4) BuildNode_rect [of "(mx + 1, my + 1)" "(lx, ly)" dflt img se] by simp
  next
    case False
    then show ?thesis using split(9) by auto
  qed
  show ?case
  proof
    assume b: "fst (lx, ly) < W \<and> snd (lx, ly) < H"
    then have lt: "lx < W" "ly < H" "mx < W" "my < H"
      using bx(2) by'(2) by auto
    have wnw: "wf_node W H nw" using split(6) lt by simp
    have wne: "wf_node W H ne" using split(7) lt by (cases "ux < lx") simp_all
    have wsw: "wf_node W H sw" using split(8) lt by (cases "uy < ly") simp_all
    have wse: "wf_node W H se"
    proof (cases "ux < lx \<and> uy < ly")
      case True
      then show ?thesis using split(9) lt by simp
    next
      case False
      then have "se = nullptr" using split(9) by auto
      then show ?thesis by simp
    qed
    have ins: "inside nw (ux, uy) (lx, ly)" "inside ne (ux, uy) (lx, ly)"
      "inside sw (ux, uy) (lx, ly)" "inside se (ux, uy) (lx, ly)"
      using rnw rne rsw rse bx by' k by (auto simp: inside_def)
    have ap: "apart nw ne" "apart nw sw" "apart nw se" "apart ne sw" "apart ne se" "apart sw se"
      using rnw rne rsw rse sx sy by (auto simp: apart_def)
    show "wf_node W H (Node (ux, uy) (lx, ly) (CalculateAverageColor dflt nw ne sw se) nw ne sw se)"
      using k lt wnw wne wsw wse ins ap by simp
  qed
qed

lemma QTree_ctor_tree_ok:
  assumes "image_ok img"
  shows "\<exists>t. QTree_ctor dflt img = Some t \<and> tree_ok t"
proof -
  note reg = image_region [OF assms]
  obtain n where n: "BuildNode dflt img (0, 0) (png_width img - 1, png_height img - 1) = Some n"
    using BuildNode_returns [OF reg(1)] by blast
  have lt: "png_width img - 1 < png_width img" "png_height img - 1 < png_height img"
    using reg(2) [of "png_width img - 1" "png_height img - 1"] reg(1)
    by (simp_all add: in_rect_def region_ok_def)
  have "wf_node (png_width img) (png_height img) n"
    using BuildNode_wf [OF reg(1) n, of "png_width img" "png_height img"] lt by simp
  then have "tree_ok \<lparr>width = png_width img, height = png_height img, root = n\<rparr>"
    using BuildNode_rect [OF reg(1) n] by (simp add: tree_ok_def)
  then show ?thesis by (simp add: QTree_ctor_def n)
qed

lemma PruneNode_rect:
  "(PruneNode d n tol = nullptr) = (n = nullptr)"
  "n \<noteq> nullptr \<Longrightarrow> upLeft (PruneNode d n tol) = upLeft n \<and> lowRight (PruneNode d n tol) = lowRight n"
  by (cases n; simp add: Let_def)+

lemma inside_cong: "(k' = nullptr) = (k = nullptr) \<Longrightarrow>
   (k \<noteq> nullptr \<Longrightarrow> upLeft k' = upLeft k \<and> lowRight k' = lowRight k) \<Longrightarrow>
   inside k ul lr \<Longrightarrow> inside k' ul lr"
  by (auto simp: inside_def)

lemma PruneNode_wf: "wf_node W H n \<Longrightarrow> wf_node W H (PruneNode d n tol)"
proof (induction n)
  case nullptr
  show ?case by simp
next
  case (Node ul lr c nw ne sw se)
  have ins: "inside (PruneNode d k tol) ul lr" if "inside k ul lr" for k
    using that PruneNode_rect [where n = k and d = d and tol = tol] by (auto simp: inside_def)
  have ap: "apart (PruneNode d k tol) (PruneNode d k' tol)" if "apart k k'" for k k'
    using that PruneNode_rect [where n = k and d = d and tol = tol] PruneNode_rect [where n = k' and d = d and tol = tol] by (auto simp: apart_def)
  have nul: "inside nullptr ul lr" "apart nullptr k" "apart k nullptr" for k :: "'a NodePtr"
    by (simp_all add: inside_def apart_def)
  have cl: "ClearSubtree k = nullptr" for k :: "'a NodePtr"
    by (cases k) simp_all
  from Node.prems have wf: "wf_node W H nw" "wf_node W H ne" "wf_node W H sw" "wf_node W H se"
    and a: "apart nw ne" "apart nw sw" "apart nw se" "apart ne sw" "apart ne se" "apart sw se"
    and i: "inside nw ul lr" "inside ne ul lr" "inside sw ul lr" "inside se ul lr"
    and rc: "fst ul \<le> fst lr" "fst lr < W" "snd ul \<le> snd lr" "snd lr < H"
    by simp_all
  note IH = Node.IH(1) [OF wf(1)] Node.IH(2) [OF wf(2)] Node.IH(3) [OF wf(3)] Node.IH(4) [OF wf(4)]
  have pruned: "wf_node W H (Node ul lr c (PruneNode d nw tol) (PruneNode d ne tol)
      (PruneNode d sw tol) (PruneNode d se tol))"
    using rc IH ins [OF i(1)] ins [OF i(2)] ins [OF i(3)] ins [OF i(4)]
      ap [OF a(1)] ap [OF a(2)] ap [OF a(3)] ap [OF a(4)] ap [OF a(5)] ap [OF a(6)]
    by simp
  have cleared: "wf_node W H (Node ul lr c nullptr nullptr nullptr nullptr)"
    using rc by (simp add: nul)
  show ?case
    unfolding PruneNode.simps Let_def cl
    using Node.prems pruned cleared by (simp only: simp_thms split: if_split)
qed

lemma tree_ok_Prune: "tree_ok t \<Longrightarrow> tree_ok (Prune d t tol)"
  using PruneNode_rect [where n = "root t" and d = d and tol = tol]
  by (auto simp: tree_ok_def Prune_def PruneNode_wf)

section \<open>The stored averages\<close>

lemma word_of_nat_diff:
  fixes u l :: u32
  assumes "u \<le> l"
  shows "l - u + 1 = of_nat (unat l - unat u + 1)"
proof -
  have "unat u \<le> unat l" using assms by (simp add: word_le_nat_alt)
  then have "(of_nat (unat l - unat u) :: u32) = l - u"
    by (simp add: of_nat_diff)
  then show ?thesis by simp
qed

lemma nodePixelCount_area:
  assumes "increasing c"
  shows "nodePixelCount c = of_nat (area c)"
proof -
  from assms have i: "fst (upLeft c) \<le> fst (lowRight c)" "snd (upLeft c) \<le> snd (lowRight c)"
    by (simp_all add: increasing_def)
  show ?thesis
    unfolding nodePixelCount_def area_def word_of_nat_diff [OF i(1)] word_of_nat_diff [OF i(2)]
    by (simp only: of_nat_mult)
qed

lemma ucast_of_nat: "(ucast (x :: u8) :: u32) = of_nat (unat x)"
  by simp

lemma addColor_of_nat:
  assumes "c = nullptr \<or> increasing c"
  shows "addColor c (of_nat sr, of_nat sg, of_nat sb, of_nat n) =
    (of_nat (sr + weighted_sum r (filter (\<lambda>c. c \<noteq> nullptr) [c])),
     of_nat (sg + weighted_sum g (filter (\<lambda>c. c \<noteq> nullptr) [c])),
     of_nat (sb + weighted_sum b (filter (\<lambda>c. c \<noteq> nullptr) [c])),
     of_nat (n + total_area (filter (\<lambda>c. c \<noteq> nullptr) [c])))"
  using assms
  by (auto simp: addColor_def weighted_sum_def total_area_def nodePixelCount_area)

lemma weighted_sum_append:
  "weighted_sum ch (xs @ ys) = weighted_sum ch xs + weighted_sum ch ys"
  "total_area (xs @ ys) = total_area xs + total_area ys"
  by (simp_all add: weighted_sum_def total_area_def)

lemma present_split:
  "present nw ne sw se =
     filter (\<lambda>c. c \<noteq> nullptr) [nw] @ filter (\<lambda>c. c \<noteq> nullptr) [ne] @
     filter (\<lambda>c. c \<noteq> nullptr) [sw] @ filter (\<lambda>c. c \<noteq> nullptr) [se]"
  by (simp add: present_def)

text \<open>The four accumulators after the four calls of \<^verbatim>\<open>addColor\<close>.\<close>

lemma accumulators:
  assumes "\<forall>c \<in> set (present nw ne sw se). increasing c"
  shows "addColor se (addColor sw (addColor ne (addColor nw (0, 0, 0, 0)))) =
    (of_nat (weighted_sum r (present nw ne sw se)),
     of_nat (weighted_sum g (present nw ne sw se)),
     of_nat (weighted_sum b (present nw ne sw se)),
     of_nat (total_area (present nw ne sw se)))"
proof -
  have i: "nw = nullptr \<or> increasing nw" "ne = nullptr \<or> increasing ne"
    "sw = nullptr \<or> increasing sw" "se = nullptr \<or> increasing se"
    using assms by (auto simp: present_def split: if_splits)
  have z: "(0, 0, 0, 0) = (of_nat 0 :: u32, of_nat 0 :: u32, of_nat 0 :: u32, of_nat 0 :: u32)"
    by simp
  show ?thesis
    unfolding z addColor_of_nat [OF i(1)] addColor_of_nat [OF i(2)]
      addColor_of_nat [OF i(3)] addColor_of_nat [OF i(4)] present_split weighted_sum_append
    by (simp add: add.assoc)
qed

lemma weighted_sum_le: "weighted_sum ch cs \<le> 255 * total_area cs"
proof -
  have "unat (ch (avg c)) * area c \<le> 255 * area c" for c :: "'a NodePtr"
    using unsigned_less [of "ch (avg c)", where 'a = nat] by (intro mult_right_mono) simp_all
  then show ?thesis
    unfolding weighted_sum_def total_area_def
    by (induction cs) (simp_all add: add_mono algebra_simps)
qed


text \<open>What \<^verbatim>\<open>CalculateAverageColor\<close> stores, channel by channel.\<close>

lemma CalculateAverageColor_nonzero:
  assumes "\<forall>c \<in> set (present nw ne sw se). increasing c"
    and "total_area (present nw ne sw se) mod 2 ^ 32 \<noteq> 0"
  shows "CalculateAverageColor dflt nw ne sw se =
     dflt\<lparr>r := ucast ((of_nat (weighted_sum r (present nw ne sw se)) :: u32) div
                      of_nat (total_area (present nw ne sw se))),
           g := ucast ((of_nat (weighted_sum g (present nw ne sw se)) :: u32) div
                      of_nat (total_area (present nw ne sw se))),
           b := ucast ((of_nat (weighted_sum b (present nw ne sw se)) :: u32) div
                      of_nat (total_area (present nw ne sw se)))\<rparr>"
proof -
  have "unat (of_nat (total_area (present nw ne sw se)) :: u32) \<noteq> 0"
    using assms(2) by (simp add: unat_of_nat)
  then have "(of_nat (total_area (present nw ne sw se)) :: u32) \<noteq> 0"
    by (metis unat_0)
  then have "(of_nat (total_area (present nw ne sw se)) :: u32) > 0"
    by (simp add: word_greater_zero_iff)
  then show ?thesis
    unfolding CalculateAverageColor_def accumulators [OF assms(1)] by simp
qed

lemma unat_stored:
  "unat (ucast ((of_nat s :: u32) div of_nat n) :: u8) = (s mod 2 ^ 32 div (n mod 2 ^ 32)) mod 256"
  by (simp add: unsigned_ucast_eq take_bit_eq_mod unat_div unat_of_nat)

lemma exact_quotient:
  fixes s n :: nat
  assumes "s \<le> 255 * n" "255 * n < 2 ^ 32" "0 < n"
  shows "(s mod 2 ^ 32 div (n mod 2 ^ 32)) mod 256 = s div n"
proof -
  have "s < 2 ^ 32" "n < 2 ^ 32" using assms by simp_all
  moreover have "s div n \<le> 255"
    using assms(1,3) by (metis div_le_mono nonzero_mult_div_cancel_right less_numeral_extra(3))
  ultimately show ?thesis by simp
qed


text \<open>The children of a split: their rectangles and their areas.\<close>

lemma area_Node:
  "area (Node (ux, uy) (lx, ly) c nw ne sw se) =
     (unat lx - unat ux + 1) * (unat ly - unat uy + 1)"
  by (simp add: area_def)

lemma split_children:
  assumes ok: "region_ok (ux, uy) (lx, ly)" and neq: "(ux, uy) \<noteq> (lx, ly)"
    and mx: "mx = (ux + lx) div 2" and my: "my = (uy + ly) div 2"
    and bnw: "BuildNode dflt img (ux, uy) (mx, my) = Some nw"
    and bne: "if ux < lx then BuildNode dflt img (mx + 1, uy) (lx, my) = Some ne \<and> P1
              else ne = nullptr"
    and bsw: "if uy < ly then BuildNode dflt img (ux, my + 1) (mx, ly) = Some sw \<and> P2
              else sw = nullptr"
    and bse: "if ux < lx \<and> uy < ly
              then BuildNode dflt img (mx + 1, my + 1) (lx, ly) = Some se \<and> P3
              else se = nullptr"
  shows "nw \<noteq> nullptr"
    and "\<forall>c \<in> set (present nw ne sw se). increasing c"
    and "total_area (present nw ne sw se) = (unat lx - unat ux + 1) * (unat ly - unat uy + 1)"
    and "\<forall>c \<in> set (present nw ne sw se). area c \<le> total_area (present nw ne sw se)"
    and "(ux, uy) = (mx, my) \<Longrightarrow> total_area (present nw ne sw se) \<le> 4"
    and "0 < total_area (present nw ne sw se)"
    and "present nw ne sw se = nw # (if ux < lx then [ne] else []) @
           (if uy < ly then [sw] else []) @ (if ux < lx \<and> uy < ly then [se] else [])"
proof -
  note sp = split_regions [OF ok neq, folded mx my]
  from ok have k: "ux \<le> lx" "uy \<le> ly" "lx < 2 ^ 31" "ly < 2 ^ 31"
    by (simp_all add: region_ok_def)
  have umx: "unat mx = (unat ux + unat lx) div 2" "unat (mx + 1) = (unat ux + unat lx) div 2 + 1"
    unfolding mx by (rule unat_mid [OF k(1) k(3)], rule unat_mid_succ [OF k(1) k(3)])
  have umy: "unat my = (unat uy + unat ly) div 2" "unat (my + 1) = (unat uy + unat ly) div 2 + 1"
    unfolding my by (rule unat_mid [OF k(2) k(4)], rule unat_mid_succ [OF k(2) k(4)])
  have nx: "unat ux \<le> unat lx" and ny: "unat uy \<le> unat ly"
    using k by (simp_all add: word_le_nat_alt)
  define X1 where "X1 = unat mx - unat ux + 1"
  define X2 where "X2 = (if ux < lx then unat lx - unat (mx + 1) + 1 else 0)"
  define Y1 where "Y1 = unat my - unat uy + 1"
  define Y2 where "Y2 = (if uy < ly then unat ly - unat (my + 1) + 1 else 0)"
  have X: "X1 + X2 = unat lx - unat ux + 1"
    unfolding X1_def X2_def umx using nx by (auto simp: word_less_nat_alt)
  have Y: "Y1 + Y2 = unat ly - unat uy + 1"
    unfolding Y1_def Y2_def umy using ny by (auto simp: word_less_nat_alt)
  have rnw: "nw \<noteq> nullptr \<and> upLeft nw = (ux, uy) \<and> lowRight nw = (mx, my)"
    using BuildNode_rect [OF _ bnw] sp(1) by simp
  then show "nw \<noteq> nullptr" by simp
  have inw: "increasing nw" "area nw = X1 * Y1"
    using rnw sp(1) by (simp_all add: increasing_def region_ok_def area_def X1_def Y1_def)
  have ine: "present ne nullptr nullptr nullptr = (if ux < lx then [ne] else [])"
     "ux < lx \<Longrightarrow> increasing ne" "total_area (present ne nullptr nullptr nullptr) = X2 * Y1"
  proof -
    show "present ne nullptr nullptr nullptr = (if ux < lx then [ne] else [])"
      using bne sp(2) BuildNode_rect [of "(mx + 1, uy)" "(lx, my)" dflt img ne]
      by (cases "ux < lx") (simp_all add: present_def)
    show "increasing ne" if "ux < lx"
      using that bne sp(2) BuildNode_rect [of "(mx + 1, uy)" "(lx, my)" dflt img ne]
      by (simp add: increasing_def region_ok_def)
    show "total_area (present ne nullptr nullptr nullptr) = X2 * Y1"
      using bne sp(2) BuildNode_rect [of "(mx + 1, uy)" "(lx, my)" dflt img ne]
      by (cases "ux < lx") (simp_all add: present_def total_area_def area_def X2_def Y1_def)
  qed
  have isw: "present sw nullptr nullptr nullptr = (if uy < ly then [sw] else [])"
     "uy < ly \<Longrightarrow> increasing sw" "total_area (present sw nullptr nullptr nullptr) = X1 * Y2"
  proof -
    show "present sw nullptr nullptr nullptr = (if uy < ly then [sw] else [])"
      using bsw sp(3) BuildNode_rect [of "(ux, my + 1)" "(mx, ly)" dflt img sw]
      by (cases "uy < ly") (simp_all add: present_def)
    show "increasing sw" if "uy < ly"
      using that bsw sp(3) BuildNode_rect [of "(ux, my + 1)" "(mx, ly)" dflt img sw]
      by (simp add: increasing_def region_ok_def)
    show "total_area (present sw nullptr nullptr nullptr) = X1 * Y2"
      using bsw sp(3) BuildNode_rect [of "(ux, my + 1)" "(mx, ly)" dflt img sw]
      by (cases "uy < ly") (simp_all add: present_def total_area_def area_def X1_def Y2_def)
  qed
  have ise: "present se nullptr nullptr nullptr = (if ux < lx \<and> uy < ly then [se] else [])"
     "ux < lx \<and> uy < ly \<Longrightarrow> increasing se"
     "total_area (present se nullptr nullptr nullptr) = X2 * Y2"
  proof -
    have r: "se \<noteq> nullptr \<and> upLeft se = (mx + 1, my + 1) \<and> lowRight se = (lx, ly)"
      if "ux < lx \<and> uy < ly"
      using that bse sp(4) BuildNode_rect [of "(mx + 1, my + 1)" "(lx, ly)" dflt img se] by simp
    have n: "se = nullptr" if "\<not> (ux < lx \<and> uy < ly)"
      using that bse by auto
    show "present se nullptr nullptr nullptr = (if ux < lx \<and> uy < ly then [se] else [])"
      using r n by (cases "ux < lx \<and> uy < ly") (simp_all add: present_def)
    show "increasing se" if "ux < lx \<and> uy < ly"
      using r [OF that] sp(4) that by (simp add: increasing_def region_ok_def)
    show "total_area (present se nullptr nullptr nullptr) = X2 * Y2"
    proof (cases "ux < lx \<and> uy < ly")
      case True
      then show ?thesis
        using r [OF True] by (simp add: present_def total_area_def area_def X2_def Y2_def)
    next
      case False
      then have "X2 * Y2 = 0" by (auto simp: X2_def Y2_def)
      then show ?thesis using n [OF False] by (simp add: present_def total_area_def)
    qed
  qed
  have pr: "present nw ne sw se = [nw] @ present ne nullptr nullptr nullptr @
      present sw nullptr nullptr nullptr @ present se nullptr nullptr nullptr"
    using rnw by (simp add: present_def)
  show "\<forall>c \<in> set (present nw ne sw se). increasing c"
    unfolding pr ine(1) isw(1) ise(1) using inw(1) ine(2) isw(2) ise(2) by auto
  have ta: "total_area (present nw ne sw se) = X1 * Y1 + X2 * Y1 + X1 * Y2 + X2 * Y2"
    unfolding pr weighted_sum_append ine(3) isw(3) ise(3)
    by (simp add: total_area_def inw(2))
  also have "\<dots> = (X1 + X2) * (Y1 + Y2)" by (simp add: algebra_simps)
  finally show tot: "total_area (present nw ne sw se) = (unat lx - unat ux + 1) * (unat ly - unat uy + 1)"
    unfolding X Y .
  show "\<forall>c \<in> set (present nw ne sw se). area c \<le> total_area (present nw ne sw se)"
  proof
    fix c assume "c \<in> set (present nw ne sw se)"
    then have "area c \<le> sum_list (map area (present nw ne sw se))"
      by (simp add: member_le_sum_list)
    then show "area c \<le> total_area (present nw ne sw se)" by (simp add: total_area_def)
  qed
  show "total_area (present nw ne sw se) \<le> 4" if "(ux, uy) = (mx, my)"
  proof -
    have "unat ux = (unat ux + unat lx) div 2" "unat uy = (unat uy + unat ly) div 2"
      using that umx(1) umy(1) by simp_all
    then have "unat lx - unat ux + 1 \<le> 2" "unat ly - unat uy + 1 \<le> 2"
      using nx ny by arith+
    then have "(unat lx - unat ux + 1) * (unat ly - unat uy + 1) \<le> 2 * 2"
      by (rule mult_mono) simp_all
    then show ?thesis using tot by simp
  qed
  show "0 < total_area (present nw ne sw se)" using tot by simp
  show "present nw ne sw se = nw # (if ux < lx then [ne] else []) @
           (if uy < ly then [sw] else []) @ (if ux < lx \<and> uy < ly then [se] else [])"
    unfolding pr ine(1) isw(1) ise(1) by simp
qed


lemma stored_exact:
  fixes s n :: nat
  assumes "s \<le> 255 * n" "255 * n < 2 ^ 32" "0 < n"
  shows "unat (ucast ((of_nat s :: u32) div of_nat n) :: u8) = s div n"
  unfolding unat_stored by (rule exact_quotient [OF assms])

text \<open>
  When the sum has wrapped and the pixel count has not, the stored channel is
  smaller than the truncated mean.
\<close>

lemma wrapped_quotient_less:
  fixes S N :: nat
  assumes "2 ^ 32 \<le> S" "0 < N" "N < 2 ^ 32"
  shows "(S mod 2 ^ 32 div (N mod 2 ^ 32)) mod 256 < S div N"
proof -
  have "S mod 2 ^ 32 \<le> S - 2 ^ 32"
    using assms(1) by (metis le_mod_geq mod_less_eq_dividend)
  also have "\<dots> \<le> S - N" using assms(3) by simp
  finally have "S mod 2 ^ 32 div N \<le> (S - N) div N" by (rule div_le_mono)
  moreover have "S div N = Suc ((S - N) div N)"
    using assms by (intro le_div_geq) simp_all
  ultimately have "S mod 2 ^ 32 div N < S div N" by simp
  moreover have "(S mod 2 ^ 32 div N) mod 256 \<le> S mod 2 ^ 32 div N" by simp
  ultimately show ?thesis using assms(3) by simp
qed

lemma stored_iff:
  fixes S N :: nat
  assumes "S \<le> 255 * N" "0 < N" "N < 2 ^ 32"
  shows "unat (ucast ((of_nat S :: u32) div of_nat N) :: u8) = S div N \<longleftrightarrow> S < 2 ^ 32"
proof
  assume "unat (ucast ((of_nat S :: u32) div of_nat N) :: u8) = S div N"
  then show "S < 2 ^ 32"
    using wrapped_quotient_less [OF _ assms(2,3), of S] unfolding unat_stored
    by (cases "S < 2 ^ 32") simp_all
next
  assume s: "S < 2 ^ 32"
  have "S div N \<le> 255"
    using assms(1,2) by (metis div_le_mono nonzero_mult_div_cancel_right less_numeral_extra(3))
  then show "unat (ucast ((of_nat S :: u32) div of_nat N) :: u8) = S div N"
    unfolding unat_stored using s assms(3) by simp
qed

lemma children_Node [simp]: "children (Node ul lr c nw ne sw se) = present nw ne sw se"
  by (simp add: children_def present_def)

lemma CalculateAverageColor_exact:
  assumes "\<forall>c \<in> set (present nw ne sw se). increasing c"
    and "0 < total_area (present nw ne sw se)" "255 * total_area (present nw ne sw se) < 2 ^ 32"
  shows "unat (r (CalculateAverageColor dflt nw ne sw se)) = weighted_mean r (present nw ne sw se)"
    and "unat (g (CalculateAverageColor dflt nw ne sw se)) = weighted_mean g (present nw ne sw se)"
    and "unat (b (CalculateAverageColor dflt nw ne sw se)) = weighted_mean b (present nw ne sw se)"
proof -
  have nz: "total_area (present nw ne sw se) mod 2 ^ 32 \<noteq> 0"
    using assms(2,3) by simp
  note C = CalculateAverageColor_nonzero [OF assms(1) nz]
  note E = stored_exact [OF weighted_sum_le assms(3) assms(2)]
  show "unat (r (CalculateAverageColor dflt nw ne sw se)) = weighted_mean r (present nw ne sw se)"
    unfolding C weighted_mean_def by (simp add: E)
  show "unat (g (CalculateAverageColor dflt nw ne sw se)) = weighted_mean g (present nw ne sw se)"
    unfolding C weighted_mean_def by (simp add: E)
  show "unat (b (CalculateAverageColor dflt nw ne sw se)) = weighted_mean b (present nw ne sw se)"
    unfolding C weighted_mean_def by (simp add: E)
qed

lemma CalculateAverageColor_iff:
  assumes "\<forall>c \<in> set (present nw ne sw se). increasing c"
    and "0 < total_area (present nw ne sw se)" "total_area (present nw ne sw se) < 2 ^ 32"
  shows "unat (r (CalculateAverageColor dflt nw ne sw se)) = weighted_mean r (present nw ne sw se)
           \<longleftrightarrow> weighted_sum r (present nw ne sw se) < 2 ^ 32"
    and "unat (g (CalculateAverageColor dflt nw ne sw se)) = weighted_mean g (present nw ne sw se)
           \<longleftrightarrow> weighted_sum g (present nw ne sw se) < 2 ^ 32"
    and "unat (b (CalculateAverageColor dflt nw ne sw se)) = weighted_mean b (present nw ne sw se)
           \<longleftrightarrow> weighted_sum b (present nw ne sw se) < 2 ^ 32"
proof -
  have nz: "total_area (present nw ne sw se) mod 2 ^ 32 \<noteq> 0"
    using assms(2,3) by simp
  note C = CalculateAverageColor_nonzero [OF assms(1) nz]
  note E = stored_iff [OF weighted_sum_le assms(2) assms(3)]
  show "unat (r (CalculateAverageColor dflt nw ne sw se)) = weighted_mean r (present nw ne sw se)
           \<longleftrightarrow> weighted_sum r (present nw ne sw se) < 2 ^ 32"
    unfolding C weighted_mean_def using E [of r] by simp
  show "unat (g (CalculateAverageColor dflt nw ne sw se)) = weighted_mean g (present nw ne sw se)
           \<longleftrightarrow> weighted_sum g (present nw ne sw se) < 2 ^ 32"
    unfolding C weighted_mean_def using E [of g] by simp
  show "unat (b (CalculateAverageColor dflt nw ne sw se)) = weighted_mean b (present nw ne sw se)
           \<longleftrightarrow> weighted_sum b (present nw ne sw se) < 2 ^ 32"
    unfolding C weighted_mean_def using E [of b] by simp
qed

lemma CalculateAverageColor_exact_ch:
  assumes "\<forall>c \<in> set (present nw ne sw se). increasing c"
    and "0 < total_area (present nw ne sw se)" "255 * total_area (present nw ne sw se) < 2 ^ 32"
    and "ch = r \<or> ch = g \<or> ch = b"
  shows "unat (ch (CalculateAverageColor dflt nw ne sw se)) = weighted_mean ch (present nw ne sw se)"
  using CalculateAverageColor_exact [OF assms(1,2,3), of dflt] assms(4) by auto

text \<open>
  Every inner node of fewer than \<open>2^32\<close> pixels stores the truncated weighted
  mean of its children exactly when none of its three weighted sums reaches
  \<open>2^32\<close>.
\<close>

lemma BuildNode_avg_iff:
  assumes "region_ok ul lr" "BuildNode dflt img ul lr = Some t"
  shows "\<forall>n \<in> set (nodes t). \<not> IsLeaf n \<and> area n < 2 ^ 32 \<longrightarrow> (avg_is_mean n \<longleftrightarrow> sums_fit n)"
  using assms
proof (induction rule: BuildNode_induct)
  case (leaf p)
  show ?case by (simp add: IsLeaf_def)
next
  case (split ux uy lx ly mx my nw ne sw se)
  note sc = split_children [OF split(1,2,3,4,5,7,8,9)]
  let ?N = "Node (ux, uy) (lx, ly) (CalculateAverageColor dflt nw ne sw se) nw ne sw se"
  let ?P = "\<lambda>n. \<not> IsLeaf n \<and> area n < 2 ^ 32 \<longrightarrow> (avg_is_mean n \<longleftrightarrow> sums_fit n)"
  have top: "avg_is_mean ?N \<longleftrightarrow> sums_fit ?N" if "area ?N < 2 ^ 32"
  proof -
    have b: "total_area (present nw ne sw se) < 2 ^ 32"
      using that by (simp add: sc(3) area_Node)
    show ?thesis
      using CalculateAverageColor_iff [OF sc(2) sc(6) b, of dflt]
      by (simp add: avg_is_mean_def sums_fit_def)
  qed
  have sub: "\<forall>n \<in> set (nodes k). ?P n" if "k \<in> {nw, ne, sw, se}" for k
  proof -
    have "\<forall>n \<in> set (nodes ne). ?P n"
      using split(7) by (cases "ux < lx") simp_all
    moreover have "\<forall>n \<in> set (nodes sw). ?P n"
      using split(8) by (cases "uy < ly") simp_all
    moreover have "\<forall>n \<in> set (nodes se). ?P n"
    proof (cases "ux < lx \<and> uy < ly")
      case True
      then show ?thesis using split(9) by simp
    next
      case False
      then have "se = nullptr" using split(9) by auto
      then show ?thesis by simp
    qed
    ultimately show ?thesis using that split(6) by auto
  qed
  show ?case
    using top sub by (simp only: nodes.simps set_simps set_append Un_iff ball_simps ball_Un) blast
qed




lemma weighted_sum_uniform:
  assumes "\<forall>c \<in> set cs. ch (avg c) = v"
  shows "weighted_sum ch cs = unat v * total_area cs"
  using assms unfolding weighted_sum_def total_area_def
  by (induction cs) (simp_all add: algebra_simps)

text \<open>On an image where one colour channel is the same everywhere, every node
  small enough for its sums not to wrap stores that value in the channel.\<close>

lemma BuildNode_uniform_ch:
  assumes "region_ok ul lr" "BuildNode dflt img ul lr = Some t"
    and ch: "ch = r \<or> ch = g \<or> ch = b"
    and u: "\<forall>x y. ch (getPixel img x y) = v"
  shows "255 * area t < 2 ^ 32 \<longrightarrow> ch (avg t) = v"
  using assms(1,2)
proof (induction rule: BuildNode_induct)
  case (leaf p)
  show ?case using u by simp
next
  case (split ux uy lx ly mx my nw ne sw se)
  note sc = split_children [OF split(1,2,3,4,5,7,8,9)]
  let ?N = "Node (ux, uy) (lx, ly) (CalculateAverageColor dflt nw ne sw se) nw ne sw se"
  show ?case
  proof
    assume "255 * area ?N < 2 ^ 32"
    then have b: "255 * total_area (present nw ne sw se) < 2 ^ 32"
      by (simp add: sc(3) area_Node)
    have small: "255 * area c < 2 ^ 32" if "c \<in> set (present nw ne sw se)" for c
    proof -
      have "area c \<le> total_area (present nw ne sw se)" using sc(4) that by blast
      then have "255 * area c \<le> 255 * total_area (present nw ne sw se)" by simp
      then show ?thesis using b by simp
    qed
    have "ch (avg c) = v" if "c \<in> set (present nw ne sw se)" for c
      using that small [OF that] split(6,7,8,9) unfolding sc(7)
      by (auto split: if_splits)
    then have "weighted_sum ch (present nw ne sw se) = unat v * total_area (present nw ne sw se)"
      by (intro weighted_sum_uniform) blast
    then have "weighted_mean ch (present nw ne sw se) = unat v"
      using sc(6) by (simp add: weighted_mean_def)
    then have "unat (ch (CalculateAverageColor dflt nw ne sw se)) = unat v"
      using CalculateAverageColor_exact_ch [OF sc(2) sc(6) b ch, of dflt] by simp
    then show "ch (avg ?N) = v" by (simp add: word_unat_eq_iff)
  qed
qed

lemma C2_cex:
  "\<exists>t. QTree_ctor dflt0 img_white = Some t \<and> \<not> IsLeaf (root t) \<and>
       unat (r (avg (root t))) = 63 \<and> weighted_mean r (children (root t)) = 255"
proof -
  have ok: "region_ok (0, 0) (8191 :: u32, 8191 :: u32)" by (simp add: region_ok_def)
  have neq: "(0 :: u32, 0 :: u32) \<noteq> (8191, 8191)" by simp
  have u: "\<forall>x y. r (getPixel img_white x y) = 255" by (simp add: img_white_def white_def)
  have m: "((0 :: u32) + 8191) div 2 = 4095" by simp
  note sp = split_regions [OF ok neq, unfolded m]
  have lt: "(0 :: u32) < 8191" by simp
  obtain nw where nw: "BuildNode dflt0 img_white (0, 0) (4095, 4095) = Some nw"
    using BuildNode_returns [of "(0, 0)" "(4095, 4095)"] sp(1) by blast
  obtain ne where ne: "BuildNode dflt0 img_white (4095 + 1, 0) (8191, 4095) = Some ne"
    using BuildNode_returns [of "(4095 + 1, 0)" "(8191, 4095)"] sp(2) [OF lt] by blast
  obtain sw where sw: "BuildNode dflt0 img_white (0, 4095 + 1) (4095, 8191) = Some sw"
    using BuildNode_returns [of "(0, 4095 + 1)" "(4095, 8191)"] sp(3) [OF lt] by blast
  obtain se where se: "BuildNode dflt0 img_white (4095 + 1, 4095 + 1) (8191, 8191) = Some se"
    using BuildNode_returns [of "(4095 + 1, 4095 + 1)" "(8191, 8191)"] sp(4) [OF lt lt] by blast
  note rnw = BuildNode_rect [OF conjunct1 [OF sp(1)] nw]
  note rne = BuildNode_rect [OF conjunct1 [OF sp(2) [OF lt]] ne]
  note rsw = BuildNode_rect [OF conjunct1 [OF sp(3) [OF lt]] sw]
  note rse = BuildNode_rect [OF conjunct1 [OF sp(4) [OF lt lt]] se]
  have ar: "area nw = 16777216" "area ne = 16777216" "area sw = 16777216" "area se = 16777216"
    using rnw rne rsw rse by (simp_all add: area_def)
  have cl: "r (avg nw) = 255" "r (avg ne) = 255" "r (avg sw) = 255" "r (avg se) = 255"
    using BuildNode_uniform_ch [OF conjunct1 [OF sp(1)] nw disjI1 [OF refl] u]
      BuildNode_uniform_ch [OF conjunct1 [OF sp(2) [OF lt]] ne disjI1 [OF refl] u]
      BuildNode_uniform_ch [OF conjunct1 [OF sp(3) [OF lt]] sw disjI1 [OF refl] u]
      BuildNode_uniform_ch [OF conjunct1 [OF sp(4) [OF lt lt]] se disjI1 [OF refl] u]
    by (simp_all add: ar)
  have pr: "present nw ne sw se = [nw, ne, sw, se]"
    using rnw rne rsw rse by (simp add: present_def)
  have inc: "\<forall>c \<in> set (present nw ne sw se). increasing c"
    using rnw rne rsw rse by (simp add: pr increasing_def)
  have ta: "total_area (present nw ne sw se) = 67108864"
    by (simp add: pr total_area_def ar)
  have ws: "weighted_sum r (present nw ne sw se) = 17112760320"
    by (simp add: pr weighted_sum_def ar cl)
  have nz: "total_area (present nw ne sw se) mod 2 ^ 32 \<noteq> 0" by (simp add: ta)
  define t where "t = Node (0, 0) (8191, 8191) (CalculateAverageColor dflt0 nw ne sw se) nw ne sw se"
  have b: "BuildNode dflt0 img_white (0, 0) (8191, 8191) = Some t"
    unfolding BuildNode_unfold [OF ok neq] m using nw ne sw se by (simp add: t_def)
  have "unat (r (avg t)) = 63"
    unfolding t_def NodePtr.sel CalculateAverageColor_nonzero [OF inc nz] ta ws
    by (simp add: unsigned_ucast_eq take_bit_eq_mod unat_div)
  moreover have "weighted_mean r (children t) = 255"
    by (simp add: t_def weighted_mean_def ta ws)
  moreover have "\<not> IsLeaf t" using rnw by (simp add: t_def IsLeaf_def)
  ultimately show ?thesis
    by (simp add: QTree_ctor_def img_white_def b [unfolded img_white_def])
qed

lemma black_root:
  "\<exists>t. QTree_ctor dflt0 img_black = Some t \<and> \<not> IsLeaf (root t) \<and>
       total_area (children (root t)) = 67108864 \<and> avg_is_mean (root t)"
proof -
  have ok: "region_ok (0, 0) (8191 :: u32, 8191 :: u32)" by (simp add: region_ok_def)
  have neq: "(0 :: u32, 0 :: u32) \<noteq> (8191, 8191)" by simp
  have u: "\<forall>x y. r (getPixel img_black x y) = 0" "\<forall>x y. g (getPixel img_black x y) = 0"
    "\<forall>x y. b (getPixel img_black x y) = 0"
    by (simp_all add: img_black_def black_def)
  have m: "((0 :: u32) + 8191) div 2 = 4095" by simp
  note sp = split_regions [OF ok neq, unfolded m]
  have lt: "(0 :: u32) < 8191" by simp
  obtain nw where nw: "BuildNode dflt0 img_black (0, 0) (4095, 4095) = Some nw"
    using BuildNode_returns [of "(0, 0)" "(4095, 4095)"] sp(1) by blast
  obtain ne where ne: "BuildNode dflt0 img_black (4095 + 1, 0) (8191, 4095) = Some ne"
    using BuildNode_returns [of "(4095 + 1, 0)" "(8191, 4095)"] sp(2) [OF lt] by blast
  obtain sw where sw: "BuildNode dflt0 img_black (0, 4095 + 1) (4095, 8191) = Some sw"
    using BuildNode_returns [of "(0, 4095 + 1)" "(4095, 8191)"] sp(3) [OF lt] by blast
  obtain se where se: "BuildNode dflt0 img_black (4095 + 1, 4095 + 1) (8191, 8191) = Some se"
    using BuildNode_returns [of "(4095 + 1, 4095 + 1)" "(8191, 8191)"] sp(4) [OF lt lt] by blast
  note rnw = BuildNode_rect [OF conjunct1 [OF sp(1)] nw]
  note rne = BuildNode_rect [OF conjunct1 [OF sp(2) [OF lt]] ne]
  note rsw = BuildNode_rect [OF conjunct1 [OF sp(3) [OF lt]] sw]
  note rse = BuildNode_rect [OF conjunct1 [OF sp(4) [OF lt lt]] se]
  have ar: "area nw = 16777216" "area ne = 16777216" "area sw = 16777216" "area se = 16777216"
    using rnw rne rsw rse by (simp_all add: area_def)
  have cl: "ch (avg nw) = 0" "ch (avg ne) = 0" "ch (avg sw) = 0" "ch (avg se) = 0"
    if "ch = r \<or> ch = g \<or> ch = b" for ch :: "nat RGBAPixel \<Rightarrow> u8"
  proof -
    have v: "\<forall>x y. ch (getPixel img_black x y) = 0" using that u by auto
    show "ch (avg nw) = 0" "ch (avg ne) = 0" "ch (avg sw) = 0" "ch (avg se) = 0"
      using BuildNode_uniform_ch [OF conjunct1 [OF sp(1)] nw that v]
        BuildNode_uniform_ch [OF conjunct1 [OF sp(2) [OF lt]] ne that v]
        BuildNode_uniform_ch [OF conjunct1 [OF sp(3) [OF lt]] sw that v]
        BuildNode_uniform_ch [OF conjunct1 [OF sp(4) [OF lt lt]] se that v]
      by (simp_all add: ar)
  qed
  have pr: "present nw ne sw se = [nw, ne, sw, se]"
    using rnw rne rsw rse by (simp add: present_def)
  have inc: "\<forall>c \<in> set (present nw ne sw se). increasing c"
    using rnw rne rsw rse by (simp add: pr increasing_def)
  have ta: "total_area (present nw ne sw se) = 67108864"
    by (simp add: pr total_area_def ar)
  have ws: "weighted_sum r (present nw ne sw se) = 0" "weighted_sum g (present nw ne sw se) = 0"
    "weighted_sum b (present nw ne sw se) = 0"
    by (simp_all add: pr weighted_sum_def cl)
  define t where "t = Node (0, 0) (8191, 8191) (CalculateAverageColor dflt0 nw ne sw se) nw ne sw se"
  have bt: "BuildNode dflt0 img_black (0, 0) (8191, 8191) = Some t"
    unfolding BuildNode_unfold [OF ok neq] m using nw ne sw se by (simp add: t_def)
  have "avg_is_mean t"
    using CalculateAverageColor_iff [OF inc, of dflt0]
    by (simp add: t_def avg_is_mean_def ta ws)
  moreover have "total_area (children t) = 67108864" by (simp add: t_def ta)
  moreover have "\<not> IsLeaf t" using rnw by (simp add: t_def IsLeaf_def)
  ultimately show ?thesis
    by (simp add: QTree_ctor_def img_black_def bt [unfolded img_black_def])
qed

lemma QTree_ctor_img0: "QTree_ctor dflt0 img0 = Some tree0"
  by (simp add: QTree_ctor_def img0_def dflt0_def tree0_def BuildNode.simps
        CalculateAverageColor_def addColor_def nodePixelCount_def)

text \<open>
  For every image with sides between 1 and \<open>2^31\<close>, every inner node of the
  freshly built tree that holds fewer than \<open>2^32\<close> pixels stores, in each of
  the red, green and blue channels, the truncated area-weighted mean of the
  stored averages of its present children exactly when none of the three
  weighted sums reaches \<open>2^32\<close>.
\<close>

lemma average_of_children:
  assumes "image_ok img"
  shows "\<exists>t. QTree_ctor dflt img = Some t \<and>
           (\<forall>n \<in> set (nodes (root t)). \<not> IsLeaf n \<and> area n < 2 ^ 32 \<longrightarrow>
              (avg_is_mean n \<longleftrightarrow> sums_fit n))"
proof -
  note reg = image_region [OF assms]
  obtain n where n: "BuildNode dflt img (0, 0) (png_width img - 1, png_height img - 1) = Some n"
    using BuildNode_returns [OF reg(1)] by blast
  show ?thesis
    using BuildNode_avg_iff [OF reg(1) n] by (simp add: QTree_ctor_def n)
qed

lemma average_of_children_img0:
  "QTree_ctor dflt0 img0 = Some tree0 \<and> \<not> IsLeaf (root tree0) \<and>
   area (root tree0) < 2 ^ 32 \<and> sums_fit (root tree0) \<and> avg_is_mean (root tree0)"
proof -
  have i: "image_ok img0" by (simp add: image_ok_def img0_def)
  have "\<forall>n \<in> set (nodes (root tree0)). \<not> IsLeaf n \<and> area n < 2 ^ 32 \<longrightarrow>
      (avg_is_mean n \<longleftrightarrow> sums_fit n)"
    using average_of_children [OF i, of dflt0] by (simp add: QTree_ctor_img0)
  moreover have "root tree0 \<in> set (nodes (root tree0))" by (simp add: tree0_def)
  moreover have "\<not> IsLeaf (root tree0)" "area (root tree0) < 2 ^ 32" "sums_fit (root tree0)"
    by (simp_all add: tree0_def IsLeaf_def area_def sums_fit_def children_def weighted_sum_def)
  ultimately show ?thesis using QTree_ctor_img0 by blast
qed

text \<open>
  C2 on the image of 8192 by 8192 white pixels. The root is an inner node
  created by the constructor; its four children store red 255, so the
  truncated area-weighted mean of their stored averages is 255. The root
  stores red 63: the sum \<open>255 * 2^26\<close> is accumulated in \<^verbatim>\<open>unsigned int\<close> and
  wraps modulo \<open>2^32\<close> before the division.
\<close>

theorem C2_white_image:
  "\<exists>t. QTree_ctor dflt0 img_white = Some t \<and> \<not> IsLeaf (root t) \<and>
       unat (r (avg (root t))) = 63 \<and> weighted_mean r (children (root t)) = 255 \<and>
       \<not> avg_is_mean (root t)"
  using C2_cex by (auto simp: avg_is_mean_def)



lemma CalculateAverageColor_zero:
  assumes "\<forall>c \<in> set (present nw ne sw se). increasing c"
    and "total_area (present nw ne sw se) mod 2 ^ 32 = 0"
  shows "CalculateAverageColor dflt nw ne sw se = (if nw \<noteq> nullptr then avg nw else dflt)"
proof -
  have z: "(of_nat (total_area (present nw ne sw se)) :: u32) = 0"
    using assms(2) by (simp add: word_unat_eq_iff unat_of_nat)
  show ?thesis
    unfolding CalculateAverageColor_def accumulators [OF assms(1)] z by simp
qed

text \<open>
  C10, as amended. \<^verbatim>\<open>CalculateAverageColor\<close> on children with rectangles in
  increasing order accumulates the three weighted sums and the pixel count
  modulo \<open>2^32\<close>: when the pixel count is not zero modulo \<open>2^32\<close>, each
  stored channel is the quotient of the weighted sum modulo \<open>2^32\<close> by the
  pixel count modulo \<open>2^32\<close>, cut to eight bits; when the pixel count is zero
  modulo \<open>2^32\<close>, the result is the average of the NW child (or the default
  pixel). For a pixel count below \<open>2^32\<close>, a stored channel is the truncated
  weighted mean if and only if the weighted sum of that channel is below
  \<open>2^32\<close>; this is so whenever 255 times the pixel count is below \<open>2^32\<close>,
  and no weaker bound on the pixel count alone gives it: for every pixel
  count \<open>N\<close> with \<open>255 * N \<ge> 2^32\<close> there is a child of \<open>N\<close> pixels for
  which the stored red differs from the weighted mean.
\<close>

theorem C10_sums_wrap:
  assumes "\<forall>c \<in> set (present nw ne sw se). increasing c"
  shows
    "(total_area (present nw ne sw se) mod 2 ^ 32 \<noteq> 0 \<longrightarrow>
        unat (r (CalculateAverageColor dflt nw ne sw se)) =
          (weighted_sum r (present nw ne sw se) mod 2 ^ 32 div
           (total_area (present nw ne sw se) mod 2 ^ 32)) mod 256 \<and>
        unat (g (CalculateAverageColor dflt nw ne sw se)) =
          (weighted_sum g (present nw ne sw se) mod 2 ^ 32 div
           (total_area (present nw ne sw se) mod 2 ^ 32)) mod 256 \<and>
        unat (b (CalculateAverageColor dflt nw ne sw se)) =
          (weighted_sum b (present nw ne sw se) mod 2 ^ 32 div
           (total_area (present nw ne sw se) mod 2 ^ 32)) mod 256) \<and>
     (total_area (present nw ne sw se) mod 2 ^ 32 = 0 \<longrightarrow>
        CalculateAverageColor dflt nw ne sw se = (if nw \<noteq> nullptr then avg nw else dflt)) \<and>
     (0 < total_area (present nw ne sw se) \<and> total_area (present nw ne sw se) < 2 ^ 32 \<longrightarrow>
        (unat (r (CalculateAverageColor dflt nw ne sw se)) = weighted_mean r (present nw ne sw se)
           \<longleftrightarrow> weighted_sum r (present nw ne sw se) < 2 ^ 32) \<and>
        (unat (g (CalculateAverageColor dflt nw ne sw se)) = weighted_mean g (present nw ne sw se)
           \<longleftrightarrow> weighted_sum g (present nw ne sw se) < 2 ^ 32) \<and>
        (unat (b (CalculateAverageColor dflt nw ne sw se)) = weighted_mean b (present nw ne sw se)
           \<longleftrightarrow> weighted_sum b (present nw ne sw se) < 2 ^ 32)) \<and>
     (0 < total_area (present nw ne sw se) \<and> 255 * total_area (present nw ne sw se) < 2 ^ 32 \<longrightarrow>
        unat (r (CalculateAverageColor dflt nw ne sw se)) = weighted_mean r (present nw ne sw se) \<and>
        unat (g (CalculateAverageColor dflt nw ne sw se)) = weighted_mean g (present nw ne sw se) \<and>
        unat (b (CalculateAverageColor dflt nw ne sw se)) = weighted_mean b (present nw ne sw se)) \<and>
     (\<forall>N. 2 ^ 32 \<le> 255 * N \<and> N < 2 ^ 32 \<longrightarrow>
        (\<exists>c. c \<noteq> nullptr \<and> increasing c \<and> area c = N \<and>
           unat (r (CalculateAverageColor dflt c nullptr nullptr nullptr)) \<noteq>
             weighted_mean r (present c nullptr nullptr nullptr)))"
proof (intro conjI impI allI)
  assume nz: "total_area (present nw ne sw se) mod 2 ^ 32 \<noteq> 0"
  note C = CalculateAverageColor_nonzero [OF assms nz]
  show "unat (r (CalculateAverageColor dflt nw ne sw se)) =
          (weighted_sum r (present nw ne sw se) mod 2 ^ 32 div
           (total_area (present nw ne sw se) mod 2 ^ 32)) mod 256"
    unfolding C unat_stored [symmetric] by simp
  show "unat (g (CalculateAverageColor dflt nw ne sw se)) =
          (weighted_sum g (present nw ne sw se) mod 2 ^ 32 div
           (total_area (present nw ne sw se) mod 2 ^ 32)) mod 256"
    unfolding C unat_stored [symmetric] by simp
  show "unat (b (CalculateAverageColor dflt nw ne sw se)) =
          (weighted_sum b (present nw ne sw se) mod 2 ^ 32 div
           (total_area (present nw ne sw se) mod 2 ^ 32)) mod 256"
    unfolding C unat_stored [symmetric] by simp
next
  assume "total_area (present nw ne sw se) mod 2 ^ 32 = 0"
  then show "CalculateAverageColor dflt nw ne sw se = (if nw \<noteq> nullptr then avg nw else dflt)"
    by (rule CalculateAverageColor_zero [OF assms])
next
  assume c: "0 < total_area (present nw ne sw se) \<and> total_area (present nw ne sw se) < 2 ^ 32"
  note I = CalculateAverageColor_iff [OF assms conjunct1 [OF c] conjunct2 [OF c], of dflt]
  show "unat (r (CalculateAverageColor dflt nw ne sw se)) = weighted_mean r (present nw ne sw se)
           \<longleftrightarrow> weighted_sum r (present nw ne sw se) < 2 ^ 32"
    by (rule I(1))
  show "unat (g (CalculateAverageColor dflt nw ne sw se)) = weighted_mean g (present nw ne sw se)
           \<longleftrightarrow> weighted_sum g (present nw ne sw se) < 2 ^ 32"
    by (rule I(2))
  show "unat (b (CalculateAverageColor dflt nw ne sw se)) = weighted_mean b (present nw ne sw se)
           \<longleftrightarrow> weighted_sum b (present nw ne sw se) < 2 ^ 32"
    by (rule I(3))
next
  assume b: "0 < total_area (present nw ne sw se) \<and> 255 * total_area (present nw ne sw se) < 2 ^ 32"
  note E = CalculateAverageColor_exact [OF assms conjunct1 [OF b] conjunct2 [OF b], of dflt]
  show "unat (r (CalculateAverageColor dflt nw ne sw se)) = weighted_mean r (present nw ne sw se)"
    by (rule E(1))
  show "unat (g (CalculateAverageColor dflt nw ne sw se)) = weighted_mean g (present nw ne sw se)"
    by (rule E(2))
  show "unat (b (CalculateAverageColor dflt nw ne sw se)) = weighted_mean b (present nw ne sw se)"
    by (rule E(3))
next
  fix N :: nat
  assume N: "2 ^ 32 \<le> 255 * N \<and> N < 2 ^ 32"
  then have N0: "0 < N" by (cases "N = 0") simp_all
  define w :: u32 where "w = of_nat (N - 1)"
  define c where "c = Node (0, 0) (w, 0) (dflt\<lparr>r := 255\<rparr>) nullptr nullptr nullptr nullptr"
  have "unat w = (N - 1) mod 2 ^ 32"
    unfolding w_def unat_of_nat by simp
  moreover have "N - 1 < 2 ^ 32" using N by arith
  ultimately have u: "unat w = N - 1"
    by (simp only: mod_less)
  have ar: "area c = N" using N0 by (simp add: c_def area_def u)
  have inc: "increasing c" by (simp add: c_def increasing_def)
  have pr: "present c nullptr nullptr nullptr = [c]" by (simp add: present_def c_def)
  have ws: "weighted_sum r [c] = 255 * N" "total_area [c] = N"
    by (simp_all add: weighted_sum_def total_area_def ar) (simp add: c_def)
  have inc': "\<forall>k \<in> set (present c nullptr nullptr nullptr). increasing k"
    by (simp add: pr inc)
  have "unat (r (CalculateAverageColor dflt c nullptr nullptr nullptr)) \<noteq>
             weighted_mean r (present c nullptr nullptr nullptr)"
    using CalculateAverageColor_iff(1) [OF inc', of dflt] N N0 by (simp add: pr ws)
  then show "\<exists>c. c \<noteq> nullptr \<and> increasing c \<and> area c = N \<and>
           unat (r (CalculateAverageColor dflt c nullptr nullptr nullptr)) \<noteq>
             weighted_mean r (present c nullptr nullptr nullptr)"
    using ar inc by (intro exI [of _ c]) (simp add: c_def)
qed

theorem C10_sums_wrap_witness:
  "total_area (present (NW (root tree0)) (NE (root tree0)) (SW (root tree0)) (SE (root tree0))) = 4 \<and>
   weighted_sum r (present (NW (root tree0)) (NE (root tree0)) (SW (root tree0)) (SE (root tree0))) = 20 \<and>
   unat (r (CalculateAverageColor dflt0 (NW (root tree0)) (NE (root tree0))
              (SW (root tree0)) (SE (root tree0)))) = 5 \<and>
   weighted_mean r (present (NW (root tree0)) (NE (root tree0)) (SW (root tree0)) (SE (root tree0))) = 5 \<and>
   total_area (present (white_block (0, 0) (4095, 4095)) (white_block (4096, 0) (8191, 4095))
      (white_block (0, 4096) (4095, 8191)) (white_block (4096, 4096) (8191, 8191))) = 67108864 \<and>
   weighted_sum r (present (white_block (0, 0) (4095, 4095)) (white_block (4096, 0) (8191, 4095))
      (white_block (0, 4096) (4095, 8191)) (white_block (4096, 4096) (8191, 8191))) = 17112760320 \<and>
   weighted_mean r (present (white_block (0, 0) (4095, 4095)) (white_block (4096, 0) (8191, 4095))
      (white_block (0, 4096) (4095, 8191)) (white_block (4096, 4096) (8191, 8191))) = 255 \<and>
   unat (r (CalculateAverageColor dflt0 (white_block (0, 0) (4095, 4095))
      (white_block (4096, 0) (8191, 4095)) (white_block (0, 4096) (4095, 8191))
      (white_block (4096, 4096) (8191, 8191)))) = 63"
proof -
  let ?cs = "present (NW (root tree0)) (NE (root tree0)) (SW (root tree0)) (SE (root tree0))"
  let ?ws = "present (white_block (0, 0) (4095, 4095)) (white_block (4096, 0) (8191, 4095))
      (white_block (0, 4096) (4095, 8191)) (white_block (4096, 4096) (8191, 8191))"
  have inc: "\<forall>c \<in> set ?cs. increasing c"
    by (simp add: tree0_def present_def increasing_def)
  have ta: "total_area ?cs = 4" "weighted_sum r ?cs = 20"
    by (simp_all add: tree0_def present_def total_area_def weighted_sum_def area_def)
  have wm: "weighted_mean r ?cs = 5"
    unfolding weighted_mean_def ta by simp
  have inc2: "\<forall>c \<in> set ?ws. increasing c"
    by (simp add: white_block_def present_def increasing_def)
  have ta2: "total_area ?ws = 67108864" "weighted_sum r ?ws = 17112760320"
    by (simp_all add: white_block_def present_def total_area_def weighted_sum_def area_def
        white_def)
  have wm2: "weighted_mean r ?ws = 255"
    unfolding weighted_mean_def ta2 by simp
  show ?thesis
    using C10_sums_wrap [OF inc, of dflt0] C10_sums_wrap [OF inc2, of dflt0] ta wm ta2 wm2
    by simp
qed

text \<open>
  The claim C10 as stated fails on the image of 8192 by 8192 black pixels: the
  root covers \<open>2^26\<close> pixels, so 255 times its pixel count is beyond
  \<open>2^32\<close>, and yet it stores the truncated weighted mean of its children in
  every channel, because the weighted sums themselves are zero.
\<close>

theorem C10_counterexample:
  "QTree_ctor dflt0 img_black \<noteq> None \<and>
   \<not> IsLeaf (root (the (QTree_ctor dflt0 img_black))) \<and>
   total_area (children (root (the (QTree_ctor dflt0 img_black)))) = 67108864 \<and>
   2 ^ 32 \<le> 255 * total_area (children (root (the (QTree_ctor dflt0 img_black)))) \<and>
   avg_is_mean (root (the (QTree_ctor dflt0 img_black)))"
proof -
  obtain t where t: "QTree_ctor dflt0 img_black = Some t" "\<not> IsLeaf (root t)"
    "total_area (children (root t)) = 67108864" "avg_is_mean (root t)"
    using black_root by blast
  show ?thesis by (simp add: t)
qed

section \<open>Pruning and rotating, on examples\<close>

lemma QTree_ctor_img1: "QTree_ctor dflt0 img1 = Some tree1"
  by (simp add: QTree_ctor_def img1_def dflt0_def tree1_def BuildNode.simps
        CalculateAverageColor_def addColor_def nodePixelCount_def)

lemma CanPrune_leaves:
  "CanPrune d n c tol = (\<forall>l \<in> set (leaves n). d (avg l) c \<le> tol)"
  by (induction n) auto

lemma ClearSubtree_null [simp]: "ClearSubtree k = nullptr"
  by (cases k) simp_all

text \<open>
  What \<^verbatim>\<open>PruneNode\<close> does at an inner node: it prunes the four children
  first and then tests the leaves of the pruned children against the node's
  own average.
\<close>

lemma PruneNode_inner:
  assumes "\<not> IsLeaf (Node ul lr c nw ne sw se)"
  shows "PruneNode d (Node ul lr c nw ne sw se) tol =
     (if \<forall>l \<in> set (leaves (PruneNode d nw tol) @ leaves (PruneNode d ne tol) @
                     leaves (PruneNode d sw tol) @ leaves (PruneNode d se tol)).
           d (avg l) c \<le> tol
      then Node ul lr c nullptr nullptr nullptr nullptr
      else Node ul lr c (PruneNode d nw tol) (PruneNode d ne tol)
             (PruneNode d sw tol) (PruneNode d se tol))"
proof -
  have "PruneNode d k tol = nullptr \<longleftrightarrow> k = nullptr" for k
    by (cases k) (simp_all add: Let_def)
  then have nl: "\<not> IsLeaf (Node ul lr c (PruneNode d nw tol) (PruneNode d ne tol)
             (PruneNode d sw tol) (PruneNode d se tol))"
    using assms by (simp add: IsLeaf_def)
  show ?thesis
    using assms nl by (simp add: Let_def CanPrune_leaves ball_Un)
qed

text \<open>
  C3 on the four by one image, with tolerance 100 for the squared distance
  (10 for the distance). The leaf at column 0 is at squared distance 225 from
  the root's stored average, so the test of the claim fails for the root of
  the never-pruned tree; \<^verbatim>\<open>Prune\<close> collapses the root all the same, because
  it tests the leaves left after pruning the children (averages 10 and 20).
\<close>

theorem C3_prune_example:
  "QTree_ctor dflt0 img1 = Some tree1 \<and>
   map (\<lambda>l. dist_sq (avg l) (avg (root tree1))) (leaves (root tree1)) = [225, 25, 25, 25] \<and>
   \<not> CanPrune dist_sq (root tree1) (avg (root tree1)) 100 \<and>
   Prune dist_sq tree1 100 =
     \<lparr>width = 4, height = 1,
      root = Node (0, 0) (3, 0) \<lparr>r = 15, g = 0, b = 0, a = 1\<rparr> nullptr nullptr nullptr nullptr\<rparr>"
  by (simp add: QTree_ctor_img1)
     (simp add: tree1_def Prune_def IsLeaf_def dist_sq_def Let_def)

lemma RotateCCW_four_dims:
  "width (RotateCCW (RotateCCW (RotateCCW (RotateCCW t)))) = width t \<and>
   height (RotateCCW (RotateCCW (RotateCCW (RotateCCW t)))) = height t"
  by (simp add: RotateCCW_def Let_def)

lemma RotateCCW_four_tree0:
  "RotateCCW (RotateCCW (RotateCCW (RotateCCW tree0))) =
   \<lparr>width = 2, height = 2,
      root = Node (0, 0) (1, 1) \<lparr>r = 5, g = 10, b = 7, a = 1\<rparr>
       (Node (1, 0) (1, 0) \<lparr>r = 0, g = 0, b = 7, a = 5\<rparr> nullptr nullptr nullptr nullptr)
       (Node (0, 0) (1, 0) \<lparr>r = 10, g = 0, b = 7, a = 5\<rparr> nullptr nullptr nullptr nullptr)
       (Node (1, 1) (1, 0) \<lparr>r = 0, g = 20, b = 7, a = 5\<rparr> nullptr nullptr nullptr nullptr)
       (Node (0, 1) (1, 0) \<lparr>r = 10, g = 20, b = 7, a = 5\<rparr> nullptr nullptr nullptr nullptr)\<rparr>"
  by (simp add: RotateCCW_def tree0_def Let_def)

text \<open>
  C4 on the two by two image. Four calls of \<^verbatim>\<open>RotateCCW\<close> restore width and
  height, but not the picture: \<^verbatim>\<open>Render(1)\<close> had the pixel of the image at
  \<open>(0, 1)\<close> and \<open>(0, 0)\<close>; after the four rotations it has the default pixel
  at \<open>(0, 1)\<close> and the pixel of \<open>(1, 0)\<close> at \<open>(0, 0)\<close>.
\<close>

theorem C4_rotate_example:
  "width (RotateCCW (RotateCCW (RotateCCW (RotateCCW tree0)))) = width tree0 \<and>
   height (RotateCCW (RotateCCW (RotateCCW (RotateCCW tree0)))) = height tree0 \<and>
   getPixel (Render dflt0 tree0 1) 0 1 = \<lparr>r = 0, g = 20, b = 7, a = 5\<rparr> \<and>
   getPixel (Render dflt0 (RotateCCW (RotateCCW (RotateCCW (RotateCCW tree0)))) 1) 0 1 = dflt0 \<and>
   getPixel (Render dflt0 tree0 1) 0 0 = \<lparr>r = 0, g = 0, b = 7, a = 5\<rparr> \<and>
   getPixel (Render dflt0 (RotateCCW (RotateCCW (RotateCCW (RotateCCW tree0)))) 1) 0 0 =
     \<lparr>r = 10, g = 0, b = 7, a = 5\<rparr>"
  unfolding RotateCCW_four_tree0
  by (simp add: Render_getPixel tree0_def IsLeaf_def covers_def dflt0_def)

text \<open>One call of \<^verbatim>\<open>RotateCCW\<close> on the two by two tree, and the flip of the result.\<close>

lemma RotateCCW_tree0:
  "RotateCCW tree0 =
   \<lparr>width = 2, height = 2,
      root = Node (0, 0) (1, 1) \<lparr>r = 5, g = 10, b = 7, a = 1\<rparr>
       (Node (1, 0) (1, 0) \<lparr>r = 0, g = 20, b = 7, a = 5\<rparr> nullptr nullptr nullptr nullptr)
       (Node (0, 0) (1, 0) \<lparr>r = 0, g = 0, b = 7, a = 5\<rparr> nullptr nullptr nullptr nullptr)
       (Node (1, 1) (1, 0) \<lparr>r = 10, g = 20, b = 7, a = 5\<rparr> nullptr nullptr nullptr nullptr)
       (Node (0, 1) (1, 0) \<lparr>r = 10, g = 0, b = 7, a = 5\<rparr> nullptr nullptr nullptr nullptr)\<rparr>"
  by (simp add: RotateCCW_def tree0_def Let_def)

lemma Flip_RotateCCW_tree0:
  "FlipHorizontal (RotateCCW tree0) =
   \<lparr>width = 2, height = 2,
      root = Node (0, 0) (1, 1) \<lparr>r = 5, g = 10, b = 7, a = 1\<rparr>
       (Node (0, 0) (1, 0) \<lparr>r = 0, g = 0, b = 7, a = 5\<rparr> nullptr nullptr nullptr nullptr)
       (Node (0, 0) (0, 0) \<lparr>r = 0, g = 20, b = 7, a = 5\<rparr> nullptr nullptr nullptr nullptr)
       (Node (0, 1) (1, 0) \<lparr>r = 10, g = 0, b = 7, a = 5\<rparr> nullptr nullptr nullptr nullptr)
       (Node (0, 1) (0, 0) \<lparr>r = 10, g = 20, b = 7, a = 5\<rparr> nullptr nullptr nullptr nullptr)\<rparr>"
  unfolding RotateCCW_tree0 by (simp add: FlipHorizontal_def Let_def)

section \<open>The flipped tree\<close>

text \<open>
  For every tree that satisfies the invariant of the data model (as a freshly
  built tree does, and keeps under pruning and flipping), after
  \<^verbatim>\<open>FlipHorizontal\<close> the rendered image has the same dimensions, the pixel
  that was at column \<open>x\<close> is at column \<open>W - 1 - x\<close> of the same row, the tree
  has as many nodes as before, and every node's rectangle is in increasing
  order (the invariant holds again).
\<close>

lemma FlipHorizontal_mirrors:
  assumes "tree_ok t"
  shows "png_width (Render dflt (FlipHorizontal t) 1) = png_width (Render dflt t 1) \<and>
         png_height (Render dflt (FlipHorizontal t) 1) = png_height (Render dflt t 1) \<and>
         (\<forall>x y. x < width t \<and> y < height t \<longrightarrow>
            getPixel (Render dflt (FlipHorizontal t) 1) (width t - 1 - x) y =
            getPixel (Render dflt t 1) x y) \<and>
         length (nodes (root (FlipHorizontal t))) = length (nodes (root t)) \<and>
         (\<forall>n \<in> set (nodes (root (FlipHorizontal t))). increasing n) \<and>
         tree_ok (FlipHorizontal t)"
proof -
  note ok = tree_ok_Flip [OF assms]
  have "increasing n" if "n \<in> set (nodes (root (FlipHorizontal t)))" for n
    using wf_node_increasing [OF _ that] ok by (auto simp: tree_ok_def increasing_def)
  then show ?thesis
    using ok Render_Flip_mirror [OF assms]
    by (simp add: Render_getPixel(1,2) FlipHorizontal_def nodes_Flip)
qed

lemma FlipHorizontal_mirrors_tree0:
  "tree_ok tree0 \<and>
   getPixel (Render dflt0 (FlipHorizontal tree0) 1) 1 0 = getPixel (Render dflt0 tree0 1) 0 0 \<and>
   getPixel (Render dflt0 (FlipHorizontal tree0) 1) 0 1 = getPixel (Render dflt0 tree0 1) 1 1 \<and>
   length (nodes (root (FlipHorizontal tree0))) = 5 \<and> tree_ok (FlipHorizontal tree0)"
proof -
  have ok: "tree_ok tree0"
    by (simp add: tree_ok_def tree0_def inside_def apart_def)
  have w: "width tree0 = 2" "height tree0 = 1 + 1" "length (nodes (root tree0)) = 5"
    by (simp_all add: tree0_def)
  note T = FlipHorizontal_mirrors [OF ok, of dflt0]
  from T have m: "getPixel (Render dflt0 (FlipHorizontal tree0) 1) (2 - 1 - x) y =
      getPixel (Render dflt0 tree0 1) x y" if "x < 2" "y < 2" for x y
    using that by (simp add: w)
  show ?thesis
    using T ok m [of 0 0] m [of 1 1] by (simp add: w)
qed

text \<open>
  C7 on the two by two image after one \<^verbatim>\<open>RotateCCW\<close>, a tree on which the
  source allows \<^verbatim>\<open>FlipHorizontal\<close>. The rotation has left the rectangles
  \<open>(1,0)-(1,0)\<close>, \<open>(0,0)-(1,0)\<close>, \<open>(1,1)-(1,0)\<close> and \<open>(0,1)-(1,0)\<close> in the
  leaves, and \<^verbatim>\<open>Render(1)\<close> shows the pixel \<open>(0, 0, 7, 5)\<close> in both columns of
  the top row. After \<^verbatim>\<open>FlipHorizontal\<close> column 0 of the top row holds
  \<open>(0, 20, 7, 5)\<close>, not the pixel that was at column \<open>W - 1 - 0 = 1\<close>: the
  rendered image is not the mirror image.
\<close>

theorem C7_flip_after_rotate:
  "QTree_ctor dflt0 img0 = Some tree0 \<and> width (RotateCCW tree0) = 2 \<and>
   getPixel (Render dflt0 (RotateCCW tree0) 1) 0 0 = \<lparr>r = 0, g = 0, b = 7, a = 5\<rparr> \<and>
   getPixel (Render dflt0 (RotateCCW tree0) 1) 1 0 = \<lparr>r = 0, g = 0, b = 7, a = 5\<rparr> \<and>
   getPixel (Render dflt0 (FlipHorizontal (RotateCCW tree0)) 1) 0 0 =
     \<lparr>r = 0, g = 20, b = 7, a = 5\<rparr> \<and>
   getPixel (Render dflt0 (FlipHorizontal (RotateCCW tree0)) 1) 1 0 =
     \<lparr>r = 0, g = 0, b = 7, a = 5\<rparr> \<and>
   getPixel (Render dflt0 (FlipHorizontal (RotateCCW tree0)) 1) (2 - 1 - 1) 0 \<noteq>
     getPixel (Render dflt0 (RotateCCW tree0) 1) 1 0"
  unfolding Flip_RotateCCW_tree0 unfolding RotateCCW_tree0
  by (simp add: QTree_ctor_img0 Render_getPixel IsLeaf_def covers_def)

section \<open>Trees in memory: frame properties\<close>

lemma load_update [simp]:
  "load (s[p := x]) q = (if q = p \<and> p < length s then x else load s q)"
  by (simp add: load_def)

lemma load_append [simp]:
  "load (s @ [x]) q = (if q = length s then x else load s q)"
  by (auto simp: load_def nth_append)

lemma load_Some_less: "load s p = Some n \<Longrightarrow> p < length s"
  by (simp add: load_def split: if_splits)

lemma set_field_Some:
  assumes "load s p = Some n"
  shows "set_NW s p q = Some (s[p := Some (n\<lparr>cell_NW := q\<rparr>)])"
    and "set_NE s p q = Some (s[p := Some (n\<lparr>cell_NE := q\<rparr>)])"
    and "set_SW s p q = Some (s[p := Some (n\<lparr>cell_SW := q\<rparr>)])"
    and "set_SE s p q = Some (s[p := Some (n\<lparr>cell_SE := q\<rparr>)])"
  using assms by (simp_all add: set_NW_def set_NE_def set_SW_def set_SE_def)

lemma owns_null: "owns s node t \<Longrightarrow> (node = None) = (t = nullptr)"
  by (cases t) (auto split: option.splits)

lemma owns_Node:
  assumes "owns s (Some p) t"
  obtains ul lr c nw ne sw se n where
    "t = Node ul lr c nw ne sw se" "load s p = Some n"
    "cell_upLeft n = ul" "cell_lowRight n = lr" "cell_avg n = c"
    "owns s (cell_NW n) nw" "owns s (cell_NE n) ne" "owns s (cell_SW n) sw" "owns s (cell_SE n) se"
  using assms by (cases t) (auto split: option.splits)

text \<open>The cells of a tree are allocated, and only they matter.\<close>

lemma addrs_allocated: "owns s node t \<Longrightarrow> q \<in> addrs s node t \<Longrightarrow> load s q \<noteq> None"
proof (induction t arbitrary: node)
  case nullptr
  then show ?case by simp
next
  case (Node ul lr c nw ne sw se)
  then show ?case
    by (auto split: option.splits)
qed

lemma owns_frame:
  "owns s node t \<Longrightarrow> (\<forall>a \<in> addrs s node t. load s' a = load s a) \<Longrightarrow>
   owns s' node t \<and> addrs s' node t = addrs s node t"
proof (induction t arbitrary: node)
  case nullptr
  then show ?case by simp
next
  case (Node ul lr c nw ne sw se)
  from Node.prems(1) obtain p n where p: "node = Some p" and n: "load s p = Some n"
    by (auto split: option.splits)
  have n': "load s' p = Some n" using Node.prems(2) p n by simp
  from Node.prems(1) have o: "owns s (cell_NW n) nw" "owns s (cell_NE n) ne"
    "owns s (cell_SW n) sw" "owns s (cell_SE n) se"
    by (simp_all add: p n)
  have f: "\<forall>a \<in> addrs s (cell_NW n) nw. load s' a = load s a"
    "\<forall>a \<in> addrs s (cell_NE n) ne. load s' a = load s a"
    "\<forall>a \<in> addrs s (cell_SW n) sw. load s' a = load s a"
    "\<forall>a \<in> addrs s (cell_SE n) se. load s' a = load s a"
    using Node.prems(2) by (simp_all add: p n)
  note IH = Node.IH(1) [OF o(1) f(1)] Node.IH(2) [OF o(2) f(2)]
    Node.IH(3) [OF o(3) f(3)] Node.IH(4) [OF o(4) f(4)]
  show ?case
    using Node.prems(1) IH by (simp add: p n n')
qed

text \<open>One child of a node, seen from a later store.\<close>

lemma child_frame:
  assumes "owns s k t" and "\<And>q. q \<in> addrs s k t \<Longrightarrow> load s' q = load s q"
  shows "owns s' k t" and "addrs s' k t = addrs s k t"
  using owns_frame [OF assms(1), of s'] assms(2) by simp_all

lemma keep_owned:
  assumes "owns s k t" "addrs s k t \<inter> X = {}" "\<And>q. q \<notin> X \<Longrightarrow> load s' q = load s q"
  shows "owns s' k t" and "addrs s' k t = addrs s k t"
proof -
  have "load s' q = load s q" if "q \<in> addrs s k t" for q
    using that assms(2,3) by blast
  then show "owns s' k t" and "addrs s' k t = addrs s k t"
    using child_frame [OF assms(1), of s'] by simp_all
qed

lemma owns_NodeI:
  assumes "load s p = Some n"
    and "cell_upLeft n = ul" "cell_lowRight n = lr" "cell_avg n = c"
    and "owns s (cell_NW n) nw" "owns s (cell_NE n) ne"
      "owns s (cell_SW n) sw" "owns s (cell_SE n) se"
    and "addrs s (cell_NW n) nw = B1" "addrs s (cell_NE n) ne = B2"
      "addrs s (cell_SW n) sw = B3" "addrs s (cell_SE n) se = B4"
    and "p \<notin> B1" "p \<notin> B2" "p \<notin> B3" "p \<notin> B4"
    and "B1 \<inter> B2 = {}" "B1 \<inter> B3 = {}" "B1 \<inter> B4 = {}"
      "B2 \<inter> B3 = {}" "B2 \<inter> B4 = {}" "B3 \<inter> B4 = {}"
  shows "owns s (Some p) (Node ul lr c nw ne sw se)"
    and "addrs s (Some p) (Node ul lr c nw ne sw se) = insert p (B1 \<union> B2 \<union> B3 \<union> B4)"
  using assms by simp_all

lemma addrs_below: "owns s k t \<Longrightarrow> q \<in> addrs s k t \<Longrightarrow> q < length s"
  using addrs_allocated [of s k t q] by (auto simp: load_def split: if_splits)

section \<open>The operations on cells compute the operations on values\<close>

lemma IsLeaf_s_owns:
  assumes "owns s node t"
  shows "IsLeaf_s s node = Some (IsLeaf t)"
proof (cases t)
  case nullptr
  then show ?thesis using assms by (simp add: IsLeaf_s_def IsLeaf_def)
next
  case (Node ul lr c nw ne sw se)
  from assms obtain p n where p: "node = Some p" and n: "load s p = Some n"
    unfolding Node by (auto split: option.splits)
  from assms have o: "owns s (cell_NW n) nw" "owns s (cell_NE n) ne"
    "owns s (cell_SW n) sw" "owns s (cell_SE n) se"
    by (simp_all add: Node p n)
  show ?thesis
    by (simp add: IsLeaf_s_def IsLeaf_def Node p n owns_null [OF o(1)] owns_null [OF o(2)]
          owns_null [OF o(3)] owns_null [OF o(4)])
qed

lemma RenderNode_s_owns:
  "owns s node t \<Longrightarrow> RenderNode_s s node scale canvas = Some (RenderNode t scale canvas)"
proof (induction t arbitrary: node canvas)
  case nullptr
  then show ?case by (subst RenderNode_s.simps) simp
next
  case (Node ul lr c nw ne sw se)
  from Node.prems(1) obtain p n where p: "node = Some p" and n: "load s p = Some n"
    by (auto split: option.splits)
  from Node.prems(1) have o: "owns s (cell_NW n) nw" "owns s (cell_NE n) ne"
    "owns s (cell_SW n) sw" "owns s (cell_SE n) se"
    and v: "cell_upLeft n = ul" "cell_lowRight n = lr" "cell_avg n = c"
    by (simp_all add: p n)
  note l = IsLeaf_s_owns [OF Node.prems(1), unfolded p]
  show ?case
    unfolding p
    by (subst RenderNode_s.simps)
       (simp add: l n v Node.IH(1) [OF o(1)] Node.IH(2) [OF o(2)] Node.IH(3) [OF o(3)]
          Node.IH(4) [OF o(4)] del: RenderNode.simps, simp)
qed

lemma CanPrune_s_owns:
  "owns s node t \<Longrightarrow> CanPrune_s d s node c tol = Some (CanPrune d t c tol)"
proof (induction t arbitrary: node)
  case nullptr
  then show ?case by (subst CanPrune_s.simps) simp
next
  case (Node ul lr c' nw ne sw se)
  from Node.prems(1) obtain p n where p: "node = Some p" and n: "load s p = Some n"
    by (auto split: option.splits)
  from Node.prems(1) have o: "owns s (cell_NW n) nw" "owns s (cell_NE n) ne"
    "owns s (cell_SW n) sw" "owns s (cell_SE n) se"
    and v: "cell_upLeft n = ul" "cell_lowRight n = lr" "cell_avg n = c'"
    by (simp_all add: p n)
  note l = IsLeaf_s_owns [OF Node.prems(1), unfolded p]
  show ?case
    unfolding p
    by (subst CanPrune_s.simps)
       (simp add: l n v Node.IH(1) [OF o(1)] Node.IH(2) [OF o(2)] Node.IH(3) [OF o(3)]
          Node.IH(4) [OF o(4)] del: CanPrune.simps, auto)
qed

lemma ClearSubtree_s_Some:
  "ClearSubtree_s s (Some p) =
     Option.bind (clear_children s p) (\<lambda>s4'.
     Option.bind (load s4' p) (\<lambda>n4. Some (delete_Node s4' p)))"
  by (subst ClearSubtree_s.simps) (simp add: clear_children_def)

lemma clear_children_owns:
  assumes own: "owns s (Some p) (Node ul lr c nw ne sw se)" and n: "load s p = Some n"
    and H: "\<And>s k t. t \<in> {nw, ne, sw, se} \<Longrightarrow> owns s k t \<Longrightarrow>
              \<exists>s'. ClearSubtree_s s k = Some s' \<and> freed (addrs s k t) s s'"
  shows "\<exists>s'. clear_children s p = Some s' \<and> length s' = length s \<and>
     (\<forall>q. load s' q =
        (if q = p
         then Some (n\<lparr>cell_NW := None, cell_NE := None, cell_SW := None, cell_SE := None\<rparr>)
         else if q \<in> addrs s (Some p) (Node ul lr c nw ne sw se) then None else load s q))"
proof -
  define A1 where "A1 = addrs s (cell_NW n) nw"
  define A2 where "A2 = addrs s (cell_NE n) ne"
  define A3 where "A3 = addrs s (cell_SW n) sw"
  define A4 where "A4 = addrs s (cell_SE n) se"
  from own have o: "owns s (cell_NW n) nw" "owns s (cell_NE n) ne"
    "owns s (cell_SW n) sw" "owns s (cell_SE n) se"
    and pn: "p \<notin> A1" "p \<notin> A2" "p \<notin> A3" "p \<notin> A4"
    and dj: "A1 \<inter> A2 = {}" "A1 \<inter> A3 = {}" "A1 \<inter> A4 = {}"
      "A2 \<inter> A3 = {}" "A2 \<inter> A4 = {}" "A3 \<inter> A4 = {}"
    by (simp_all add: n A1_def A2_def A3_def A4_def)
  have pl: "p < length s" by (rule load_Some_less [OF n])
  \<comment> \<open>NW\<close>
  obtain s1 where s1: "ClearSubtree_s s (cell_NW n) = Some s1" and f1: "freed A1 s s1"
    using H [OF _ o(1)] unfolding A1_def by auto
  have l1: "load s1 p = Some n" using f1 pn(1) n by (simp add: freed_def)
  define n1 where "n1 = n\<lparr>cell_NW := None\<rparr>"
  define s1' where "s1' = s1[p := Some n1]"
  have w1: "set_NW s1 p None = Some s1'"
    unfolding s1'_def n1_def by (rule set_field_Some(1) [OF l1])
  have len1: "length s1' = length s" using f1 by (simp add: s1'_def freed_def)
  have ld1: "load s1' q = (if q = p then Some n1 else if q \<in> A1 then None else load s q)" for q
    using f1 pl by (simp add: s1'_def freed_def)
  \<comment> \<open>NE\<close>
  have fr2: "load s1' q = load s q" if "q \<in> addrs s (cell_NE n) ne" for q
    using that ld1 pn(2) dj(1) unfolding A2_def by auto
  have o2: "owns s1' (cell_NE n) ne" "addrs s1' (cell_NE n) ne = A2"
    using child_frame [OF o(2) fr2] unfolding A2_def by simp_all
  obtain s2 where s2: "ClearSubtree_s s1' (cell_NE n) = Some s2" and f2: "freed A2 s1' s2"
    using H [OF _ o2(1)] unfolding o2(2) by auto
  have l2: "load s2 p = Some n1" using f2 pn(2) ld1 by (simp add: freed_def)
  define n2 where "n2 = n1\<lparr>cell_NE := None\<rparr>"
  define s2' where "s2' = s2[p := Some n2]"
  have w2: "set_NE s2 p None = Some s2'"
    unfolding s2'_def n2_def by (rule set_field_Some(2) [OF l2])
  have len2: "length s2' = length s" using f2 len1 by (simp add: s2'_def freed_def)
  have ld2: "load s2' q = (if q = p then Some n2 else if q \<in> A1 \<union> A2 then None else load s q)" for q
    using f2 pl len1 ld1 by (simp add: s2'_def freed_def)
  \<comment> \<open>SW\<close>
  have fr3: "load s2' q = load s q" if "q \<in> addrs s (cell_SW n) sw" for q
    using that ld2 pn(3) dj(2) dj(4) unfolding A3_def by auto
  have o3: "owns s2' (cell_SW n) sw" "addrs s2' (cell_SW n) sw = A3"
    using child_frame [OF o(3) fr3] unfolding A3_def by simp_all
  obtain s3 where s3: "ClearSubtree_s s2' (cell_SW n) = Some s3" and f3: "freed A3 s2' s3"
    using H [OF _ o3(1)] unfolding o3(2) by auto
  have l3: "load s3 p = Some n2" using f3 pn(3) ld2 by (simp add: freed_def)
  define n3 where "n3 = n2\<lparr>cell_SW := None\<rparr>"
  define s3' where "s3' = s3[p := Some n3]"
  have w3: "set_SW s3 p None = Some s3'"
    unfolding s3'_def n3_def by (rule set_field_Some(3) [OF l3])
  have len3: "length s3' = length s" using f3 len2 by (simp add: s3'_def freed_def)
  have ld3: "load s3' q = (if q = p then Some n3 else if q \<in> A1 \<union> A2 \<union> A3 then None else load s q)" for q
    using f3 pl len2 ld2 by (simp add: s3'_def freed_def)
  \<comment> \<open>SE\<close>
  have fr4: "load s3' q = load s q" if "q \<in> addrs s (cell_SE n) se" for q
    using that ld3 pn(4) dj(3) dj(5) dj(6) unfolding A4_def by auto
  have o4: "owns s3' (cell_SE n) se" "addrs s3' (cell_SE n) se = A4"
    using child_frame [OF o(4) fr4] unfolding A4_def by simp_all
  obtain s4 where s4: "ClearSubtree_s s3' (cell_SE n) = Some s4" and f4: "freed A4 s3' s4"
    using H [OF _ o4(1)] unfolding o4(2) by auto
  have l4: "load s4 p = Some n3" using f4 pn(4) ld3 by (simp add: freed_def)
  define n4 where "n4 = n3\<lparr>cell_SE := None\<rparr>"
  define s4' where "s4' = s4[p := Some n4]"
  have w4: "set_SE s4 p None = Some s4'"
    unfolding s4'_def n4_def by (rule set_field_Some(4) [OF l4])
  have len4: "length s4' = length s" using f4 len3 by (simp add: s4'_def freed_def)
  have ld4: "load s4' q = (if q = p then Some n4 else if q \<in> A1 \<union> A2 \<union> A3 \<union> A4 then None else load s q)" for q
    using f4 pl len3 ld3 by (simp add: s4'_def freed_def)
  have fields: "cell_NE n1 = cell_NE n" "cell_SW n2 = cell_SW n" "cell_SE n3 = cell_SE n"
    by (simp_all add: n1_def n2_def n3_def)
  have run: "clear_children s p = Some s4'"
    unfolding clear_children_def
    by (simp add: n s1 w1 ld1 fields s2 w2 ld2 s3 w3 ld3 s4 w4 ld4)
  have n4: "n4 = n\<lparr>cell_NW := None, cell_NE := None, cell_SW := None, cell_SE := None\<rparr>"
    by (simp add: n4_def n3_def n2_def n1_def)
  show ?thesis
    using run len4 ld4 unfolding n4
    by (simp add: n A1_def A2_def A3_def A4_def)
qed

lemma ClearSubtree_s_owns:
  "owns s node t \<Longrightarrow> \<exists>s'. ClearSubtree_s s node = Some s' \<and> freed (addrs s node t) s s'"
proof (induction t arbitrary: s node)
  case nullptr
  then show ?case by (subst ClearSubtree_s.simps) (simp add: freed_def)
next
  case (Node ul lr c nw ne sw se)
  from Node.prems(1) obtain p n where p: "node = Some p" and n: "load s p = Some n"
    by (auto split: option.splits)
  have H: "\<exists>s'. ClearSubtree_s s k = Some s' \<and> freed (addrs s k t) s s'"
    if "t \<in> {nw, ne, sw, se}" "owns s k t" for s k t
    using that Node.IH by auto
  obtain s' where s': "clear_children s p = Some s'" "length s' = length s"
    and ld: "\<And>q. load s' q =
        (if q = p
         then Some (n\<lparr>cell_NW := None, cell_NE := None, cell_SW := None, cell_SE := None\<rparr>)
         else if q \<in> addrs s (Some p) (Node ul lr c nw ne sw se) then None else load s q)"
    using clear_children_owns [OF Node.prems(1) [unfolded p] n H] by blast
  have pl: "p < length s" by (rule load_Some_less [OF n])
  have "freed (addrs s (Some p) (Node ul lr c nw ne sw se)) s (delete_Node s' p)"
    using pl s'(2) ld n by (simp add: freed_def delete_Node_def)
  then show ?case
    unfolding p ClearSubtree_s_Some by (simp add: s'(1) ld)
qed

lemma PruneNode_s_owns:
  "owns s node t \<Longrightarrow> \<exists>s'. PruneNode_s d s node tol = Some s' \<and> pruned d tol s node t s'"
proof (induction t arbitrary: s node)
  case nullptr
  then show ?case by (subst PruneNode_s.simps) (simp add: pruned_def)
next
  case (Node ul lr c nw ne sw se)
  let ?t = "Node ul lr c nw ne sw se"
  from Node.prems(1) obtain p n where p: "node = Some p" and n: "load s p = Some n"
    by (auto split: option.splits)
  note leaf = IsLeaf_s_owns [OF Node.prems(1), unfolded p]
  show ?case
  proof (cases "IsLeaf ?t")
    case True
    have "PruneNode_s d s (Some p) tol = Some s"
      by (subst PruneNode_s.simps) (simp add: leaf True)
    moreover have "pruned d tol s (Some p) ?t s"
      using Node.prems(1) True unfolding pruned_def p by (simp del: owns.simps addrs.simps)
    ultimately show ?thesis unfolding p by blast
  next
    case False
    define A1 where "A1 = addrs s (cell_NW n) nw"
    define A2 where "A2 = addrs s (cell_NE n) ne"
    define A3 where "A3 = addrs s (cell_SW n) sw"
    define A4 where "A4 = addrs s (cell_SE n) se"
    from Node.prems(1) have o: "owns s (cell_NW n) nw" "owns s (cell_NE n) ne"
      "owns s (cell_SW n) sw" "owns s (cell_SE n) se"
      and v: "cell_upLeft n = ul" "cell_lowRight n = lr" "cell_avg n = c"
      and pn: "p \<notin> A1" "p \<notin> A2" "p \<notin> A3" "p \<notin> A4"
      and dj: "A1 \<inter> A2 = {}" "A1 \<inter> A3 = {}" "A1 \<inter> A4 = {}"
        "A2 \<inter> A3 = {}" "A2 \<inter> A4 = {}" "A3 \<inter> A4 = {}"
      by (simp_all add: p n A1_def A2_def A3_def A4_def)
    define nw' where "nw' = PruneNode d nw tol"
    define ne' where "ne' = PruneNode d ne tol"
    define sw' where "sw' = PruneNode d sw tol"
    define se' where "se' = PruneNode d se tol"
    \<comment> \<open>NW\<close>
    obtain s1 where s1: "PruneNode_s d s (cell_NW n) tol = Some s1"
      and p1: "pruned d tol s (cell_NW n) nw s1"
      using Node.IH(1) [OF o(1)] by blast
    define B1 where "B1 = addrs s1 (cell_NW n) nw'"
    from p1 have len1: "length s1 = length s" and own1: "owns s1 (cell_NW n) nw'"
      and sub1: "B1 \<subseteq> A1" and fr1: "\<And>q. q \<notin> A1 \<Longrightarrow> load s1 q = load s q"
      by (simp_all add: pruned_def A1_def B1_def nw'_def)
    have l1: "load s1 p = Some n" using fr1 [OF pn(1)] n by simp
    \<comment> \<open>NE\<close>
    have k2: "A2 \<inter> A1 = {}" using dj by blast
    have o2: "owns s1 (cell_NE n) ne" "addrs s1 (cell_NE n) ne = A2"
      using keep_owned [OF o(2) k2 [unfolded A2_def] fr1] by (simp_all add: A2_def)
    obtain s2 where s2: "PruneNode_s d s1 (cell_NE n) tol = Some s2"
      and p2: "pruned d tol s1 (cell_NE n) ne s2"
      using Node.IH(2) [OF o2(1)] by blast
    define B2 where "B2 = addrs s2 (cell_NE n) ne'"
    from p2 have len2: "length s2 = length s" and own2: "owns s2 (cell_NE n) ne'"
      and sub2: "B2 \<subseteq> A2" and fr2: "\<And>q. q \<notin> A2 \<Longrightarrow> load s2 q = load s1 q"
      by (simp_all add: pruned_def o2(2) B2_def ne'_def len1)
    have l2: "load s2 p = Some n" using fr2 [OF pn(2)] l1 by simp
    have k21: "B1 \<inter> A2 = {}" using sub1 dj by blast
    have own21: "owns s2 (cell_NW n) nw'" "addrs s2 (cell_NW n) nw' = B1"
      using keep_owned [OF own1 k21 [unfolded B1_def] fr2] by (simp_all add: B1_def)
    \<comment> \<open>SW\<close>
    have fr02: "load s2 q = load s q" if "q \<notin> A1 \<union> A2" for q
      using that fr1 [of q] fr2 [of q] by simp
    have k3: "A3 \<inter> (A1 \<union> A2) = {}" using dj by blast
    have o3: "owns s2 (cell_SW n) sw" "addrs s2 (cell_SW n) sw = A3"
      using keep_owned [OF o(3) k3 [unfolded A3_def] fr02] by (simp_all add: A3_def)
    obtain s3 where s3: "PruneNode_s d s2 (cell_SW n) tol = Some s3"
      and p3: "pruned d tol s2 (cell_SW n) sw s3"
      using Node.IH(3) [OF o3(1)] by blast
    define B3 where "B3 = addrs s3 (cell_SW n) sw'"
    from p3 have len3: "length s3 = length s" and own3: "owns s3 (cell_SW n) sw'"
      and sub3: "B3 \<subseteq> A3" and fr3: "\<And>q. q \<notin> A3 \<Longrightarrow> load s3 q = load s2 q"
      by (simp_all add: pruned_def o3(2) B3_def sw'_def len2)
    have l3: "load s3 p = Some n" using fr3 [OF pn(3)] l2 by simp
    have k31: "B1 \<inter> A3 = {}" and k32: "B2 \<inter> A3 = {}" using sub1 sub2 dj by blast+
    have own31: "owns s3 (cell_NW n) nw'" "addrs s3 (cell_NW n) nw' = B1"
      using keep_owned [OF own21(1) k31 [folded own21(2)] fr3] by (simp_all add: own21(2))
    have own32: "owns s3 (cell_NE n) ne'" "addrs s3 (cell_NE n) ne' = B2"
      using keep_owned [OF own2 k32 [unfolded B2_def] fr3] by (simp_all add: B2_def)
    \<comment> \<open>SE\<close>
    have fr03: "load s3 q = load s q" if "q \<notin> A1 \<union> A2 \<union> A3" for q
      using that fr02 [of q] fr3 [of q] by simp
    have k4: "A4 \<inter> (A1 \<union> A2 \<union> A3) = {}" using dj by blast
    have o4: "owns s3 (cell_SE n) se" "addrs s3 (cell_SE n) se = A4"
      using keep_owned [OF o(4) k4 [unfolded A4_def] fr03] by (simp_all add: A4_def)
    obtain s4 where s4: "PruneNode_s d s3 (cell_SE n) tol = Some s4"
      and p4: "pruned d tol s3 (cell_SE n) se s4"
      using Node.IH(4) [OF o4(1)] by blast
    define B4 where "B4 = addrs s4 (cell_SE n) se'"
    from p4 have len4: "length s4 = length s" and own4: "owns s4 (cell_SE n) se'"
      and sub4: "B4 \<subseteq> A4" and fr4: "\<And>q. q \<notin> A4 \<Longrightarrow> load s4 q = load s3 q"
      by (simp_all add: pruned_def o4(2) B4_def se'_def len3)
    have l4: "load s4 p = Some n" using fr4 [OF pn(4)] l3 by simp
    have k41: "B1 \<inter> A4 = {}" and k42: "B2 \<inter> A4 = {}" and k43: "B3 \<inter> A4 = {}"
      using sub1 sub2 sub3 dj by blast+
    have own41: "owns s4 (cell_NW n) nw'" "addrs s4 (cell_NW n) nw' = B1"
      using keep_owned [OF own31(1) k41 [folded own31(2)] fr4] by (simp_all add: own31(2))
    have own42: "owns s4 (cell_NE n) ne'" "addrs s4 (cell_NE n) ne' = B2"
      using keep_owned [OF own32(1) k42 [folded own32(2)] fr4] by (simp_all add: own32(2))
    have own43: "owns s4 (cell_SW n) sw'" "addrs s4 (cell_SW n) sw' = B3"
      using keep_owned [OF own3 k43 [unfolded B3_def] fr4] by (simp_all add: B3_def)
    have fr04: "load s4 q = load s q" if "q \<notin> A1 \<union> A2 \<union> A3 \<union> A4" for q
      using that fr03 [of q] fr4 [of q] by simp
    \<comment> \<open>the node with its pruned children\<close>
    let ?t' = "Node ul lr c nw' ne' sw' se'"
    have pB: "p \<notin> B1" "p \<notin> B2" "p \<notin> B3" "p \<notin> B4"
      using sub1 sub2 sub3 sub4 pn by blast+
    have dB: "B1 \<inter> B2 = {}" "B1 \<inter> B3 = {}" "B1 \<inter> B4 = {}"
        "B2 \<inter> B3 = {}" "B2 \<inter> B4 = {}" "B3 \<inter> B4 = {}"
      using sub1 sub2 sub3 sub4 dj by blast+
    note N' = owns_NodeI [OF l4 v own41(1) own42(1) own43(1) own4 own41(2) own42(2) own43(2)
        B4_def [symmetric] pB dB]
    note own' = N'(1) and ad' = N'(2)
    have ad: "addrs s (Some p) ?t = insert p (A1 \<union> A2 \<union> A3 \<union> A4)"
      using n by (simp add: A1_def A2_def A3_def A4_def)
    note can = CanPrune_s_owns [OF own', of d c tol]
    have nl': "\<not> IsLeaf ?t'"
      using False by (simp add: IsLeaf_def nw'_def ne'_def sw'_def se'_def PruneNode_rect(1))
    have PN: "PruneNode d ?t tol =
        (if CanPrune d ?t' c tol then Node ul lr c nullptr nullptr nullptr nullptr else ?t')"
      using False by (simp add: Let_def nw'_def ne'_def sw'_def se'_def ClearSubtree_null)
    show ?thesis
    proof (cases "CanPrune d ?t' c tol")
      case False
      have run: "PruneNode_s d s (Some p) tol = Some s4"
        by (subst PruneNode_s.simps)
           (simp add: leaf \<open>\<not> IsLeaf ?t\<close> n s1 l1 s2 l2 s3 l3 s4 l4 v can False
              del: owns.simps addrs.simps IsLeaf_def CanPrune.simps)
      have "pruned d tol s (Some p) ?t s4"
        unfolding pruned_def PN if_not_P [OF False] ad ad'
        using len4 own' fr04 sub1 sub2 sub3 sub4 by (simp del: owns.simps) blast
      then show ?thesis unfolding p using run by blast
    next
      case True
      have H: "\<exists>s'. ClearSubtree_s s k = Some s' \<and> freed (addrs s k t) s s'"
        if "t \<in> {nw', ne', sw', se'}" "owns s k t" for s k t
        using ClearSubtree_s_owns [OF that(2)] .
      obtain s5 where s5: "clear_children s4 p = Some s5" "length s5 = length s4"
        and ld: "\<And>q. load s5 q =
          (if q = p
           then Some (n\<lparr>cell_NW := None, cell_NE := None, cell_SW := None, cell_SE := None\<rparr>)
           else if q \<in> addrs s4 (Some p) ?t' then None else load s4 q)"
        using clear_children_owns [OF own' l4 H] by blast
      have run: "PruneNode_s d s (Some p) tol = Some s5"
        using s5(1) unfolding clear_children_def
        by (subst PruneNode_s.simps)
           (simp add: leaf \<open>\<not> IsLeaf ?t\<close> n s1 l1 s2 l2 s3 l3 s4 l4 v can True
              del: owns.simps addrs.simps IsLeaf_def CanPrune.simps)
      have "owns s5 (Some p) (Node ul lr c nullptr nullptr nullptr nullptr)"
        using ld [of p] v by simp
      moreover have "load s5 q = load s q" if "q \<notin> insert p (A1 \<union> A2 \<union> A3 \<union> A4)" for q
        using that ld [of q] fr04 [of q] sub1 sub2 sub3 sub4 unfolding ad' by auto
      ultimately have "pruned d tol s (Some p) ?t s5"
        unfolding pruned_def PN if_P [OF True] ad
        using s5(2) len4 ld [of p] by (simp del: owns.simps)
      then show ?thesis unfolding p using run by blast
    qed
  qed
qed

lemma CopyNode_owns:
  "owns s node t \<Longrightarrow> \<exists>s' q. CopyNode s node = Some (s', q) \<and> copied s t s' q"
proof (induction t arbitrary: s node)
  case nullptr
  then show ?case by (subst CopyNode.simps) (simp add: copied_def)
next
  case (Node ul lr c nw ne sw se)
  let ?t = "Node ul lr c nw ne sw se"
  from Node.prems(1) obtain p n where p: "node = Some p" and n: "load s p = Some n"
    by (auto split: option.splits)
  from Node.prems(1) have o: "owns s (cell_NW n) nw" "owns s (cell_NE n) ne"
    "owns s (cell_SW n) sw" "owns s (cell_SE n) se"
    and v: "cell_upLeft n = ul" "cell_lowRight n = lr" "cell_avg n = c"
    by (simp_all add: p n)
  have pl: "p < length s" by (rule load_Some_less [OF n])
  note below = addrs_below [OF o(1)] addrs_below [OF o(2)] addrs_below [OF o(3)] addrs_below [OF o(4)]
  define q0 where "q0 = length s"
  define cell0 where "cell0 = \<lparr>cell_upLeft = ul, cell_lowRight = lr, cell_avg = c,
     cell_NW = None, cell_NE = None, cell_SW = None, cell_SE = (None :: addr option)\<rparr>"
  define s0 where "s0 = s @ [Some cell0]"
  have new: "new_Node s (cell_upLeft n) (cell_lowRight n) (cell_avg n) = (s0, q0)"
    by (simp add: new_Node_def v s0_def cell0_def q0_def)
  have len0: "length s0 = Suc (length s)" by (simp add: s0_def)
  have ld0: "load s0 k = (if k = q0 then Some cell0 else load s k)" for k
    by (simp add: s0_def q0_def)
  have pq: "p \<noteq> q0" using pl by (simp add: q0_def)
  \<comment> \<open>NW\<close>
  have e0: "load s0 k = load s k" if "k < length s" for k
    using that by (simp add: ld0 q0_def)
  have o1: "owns s0 (cell_NW n) nw"
    by (rule child_frame(1) [OF o(1)]) (simp add: e0 below(1))
  obtain s1 q1 where c1: "CopyNode s0 (cell_NW n) = Some (s1, q1)" and cp1: "copied s0 nw s1 q1"
    using Node.IH(1) [OF o1] by blast
  define C1 where "C1 = addrs s1 q1 nw"
  from cp1 have len1: "length s0 \<le> length s1" and a1: "\<And>k. k < length s0 \<Longrightarrow> load s1 k = load s0 k"
    and own1: "owns s1 q1 nw" and r1: "C1 \<subseteq> {length s0 ..< length s1}"
    by (simp_all add: copied_def C1_def)
  define cell1 where "cell1 = cell0\<lparr>cell_NW := q1\<rparr>"
  define s1' where "s1' = s1[q0 := Some cell1]"
  have lq1: "load s1 q0 = Some cell0" using a1 [of q0] len0 by (simp add: ld0 q0_def)
  have w1: "set_NW s1 q0 q1 = Some s1'"
    unfolding s1'_def cell1_def by (rule set_field_Some(1) [OF lq1])
  have q0l1: "q0 < length s1" using len1 len0 by (simp add: q0_def)
  have ld1: "load s1' k = (if k = q0 then Some cell1 else load s1 k)" for k
    using q0l1 by (simp add: s1'_def)
  have len1': "length s1' = length s1" by (simp add: s1'_def)
  have e1: "load s1' k = load s k" if "k < length s" for k
    using that a1 [of k] len0 by (simp add: ld1 ld0 q0_def)
  have f1: "load s1' j = load s1 j" if "j \<in> addrs s1 q1 nw" for j
    using that r1 len0 by (auto simp: ld1 q0_def C1_def)
  have k1: "owns s1' q1 nw" "addrs s1' q1 nw = C1"
    using child_frame [OF own1 f1] by (simp_all add: C1_def)
  \<comment> \<open>NE\<close>
  have o2: "owns s1' (cell_NE n) ne"
    by (rule child_frame(1) [OF o(2)]) (simp add: e1 below(2))
  obtain s2 q2 where c2: "CopyNode s1' (cell_NE n) = Some (s2, q2)" and cp2: "copied s1' ne s2 q2"
    using Node.IH(2) [OF o2] by blast
  define C2 where "C2 = addrs s2 q2 ne"
  from cp2 have len2: "length s1 \<le> length s2" and a2: "\<And>k. k < length s1 \<Longrightarrow> load s2 k = load s1' k"
    and own2: "owns s2 q2 ne" and r2: "C2 \<subseteq> {length s1 ..< length s2}"
    by (simp_all add: copied_def C2_def len1')
  define cell2 where "cell2 = cell1\<lparr>cell_NE := q2\<rparr>"
  define s2' where "s2' = s2[q0 := Some cell2]"
  have lq2: "load s2 q0 = Some cell1" using a2 [OF q0l1] by (simp add: ld1)
  have w2: "set_NE s2 q0 q2 = Some s2'"
    unfolding s2'_def cell2_def by (rule set_field_Some(2) [OF lq2])
  have q0l2: "q0 < length s2" using len2 q0l1 by simp
  have ld2: "load s2' k = (if k = q0 then Some cell2 else load s2 k)" for k
    using q0l2 by (simp add: s2'_def)
  have len2': "length s2' = length s2" by (simp add: s2'_def)
  have e2: "load s2' k = load s k" if "k < length s" for k
    using that a2 [of k] e1 [of k] len1 len0 by (simp add: ld2 q0_def)
  have f21: "load s2' j = load s1' j" if "j \<in> addrs s1' q1 nw" for j
    using that r1 len0 a2 [of j] by (auto simp: ld2 q0_def k1(2))
  have k21: "owns s2' q1 nw" "addrs s2' q1 nw = C1"
    using child_frame [OF k1(1) f21] by (simp_all add: k1(2))
  have f22: "load s2' j = load s2 j" if "j \<in> addrs s2 q2 ne" for j
    using that r2 len1 len0 by (auto simp: ld2 q0_def C2_def)
  have k22: "owns s2' q2 ne" "addrs s2' q2 ne = C2"
    using child_frame [OF own2 f22] by (simp_all add: C2_def)
  \<comment> \<open>SW\<close>
  have o3: "owns s2' (cell_SW n) sw"
    by (rule child_frame(1) [OF o(3)]) (simp add: e2 below(3))
  obtain s3 q3 where c3: "CopyNode s2' (cell_SW n) = Some (s3, q3)" and cp3: "copied s2' sw s3 q3"
    using Node.IH(3) [OF o3] by blast
  define C3 where "C3 = addrs s3 q3 sw"
  from cp3 have len3: "length s2 \<le> length s3" and a3: "\<And>k. k < length s2 \<Longrightarrow> load s3 k = load s2' k"
    and own3: "owns s3 q3 sw" and r3: "C3 \<subseteq> {length s2 ..< length s3}"
    by (simp_all add: copied_def C3_def len2')
  define cell3 where "cell3 = cell2\<lparr>cell_SW := q3\<rparr>"
  define s3' where "s3' = s3[q0 := Some cell3]"
  have lq3: "load s3 q0 = Some cell2" using a3 [OF q0l2] by (simp add: ld2)
  have w3: "set_SW s3 q0 q3 = Some s3'"
    unfolding s3'_def cell3_def by (rule set_field_Some(3) [OF lq3])
  have q0l3: "q0 < length s3" using len3 q0l2 by simp
  have ld3: "load s3' k = (if k = q0 then Some cell3 else load s3 k)" for k
    using q0l3 by (simp add: s3'_def)
  have len3': "length s3' = length s3" by (simp add: s3'_def)
  have e3: "load s3' k = load s k" if "k < length s" for k
    using that a3 [of k] e2 [of k] len2 len1 len0 by (simp add: ld3 q0_def)
  have f31: "load s3' j = load s2' j" if "j \<in> addrs s2' q1 nw" for j
    using that r1 len0 len2 a3 [of j] by (auto simp: ld3 q0_def k21(2))
  have k31: "owns s3' q1 nw" "addrs s3' q1 nw = C1"
    using child_frame [OF k21(1) f31] by (simp_all add: k21(2))
  have f32: "load s3' j = load s2' j" if "j \<in> addrs s2' q2 ne" for j
    using that r2 len1 len0 a3 [of j] by (auto simp: ld3 q0_def k22(2))
  have k32: "owns s3' q2 ne" "addrs s3' q2 ne = C2"
    using child_frame [OF k22(1) f32] by (simp_all add: k22(2))
  have f33: "load s3' j = load s3 j" if "j \<in> addrs s3 q3 sw" for j
    using that r3 len2 len1 len0 by (auto simp: ld3 q0_def C3_def)
  have k33: "owns s3' q3 sw" "addrs s3' q3 sw = C3"
    using child_frame [OF own3 f33] by (simp_all add: C3_def)
  \<comment> \<open>SE\<close>
  have o4: "owns s3' (cell_SE n) se"
    by (rule child_frame(1) [OF o(4)]) (simp add: e3 below(4))
  obtain s4 q4 where c4: "CopyNode s3' (cell_SE n) = Some (s4, q4)" and cp4: "copied s3' se s4 q4"
    using Node.IH(4) [OF o4] by blast
  define C4 where "C4 = addrs s4 q4 se"
  from cp4 have len4: "length s3 \<le> length s4" and a4: "\<And>k. k < length s3 \<Longrightarrow> load s4 k = load s3' k"
    and own4: "owns s4 q4 se" and r4: "C4 \<subseteq> {length s3 ..< length s4}"
    by (simp_all add: copied_def C4_def len3')
  define cell4 where "cell4 = cell3\<lparr>cell_SE := q4\<rparr>"
  define s4' where "s4' = s4[q0 := Some cell4]"
  have lq4: "load s4 q0 = Some cell3" using a4 [OF q0l3] by (simp add: ld3)
  have w4: "set_SE s4 q0 q4 = Some s4'"
    unfolding s4'_def cell4_def by (rule set_field_Some(4) [OF lq4])
  have q0l4: "q0 < length s4" using len4 q0l3 by simp
  have ld4: "load s4' k = (if k = q0 then Some cell4 else load s4 k)" for k
    using q0l4 by (simp add: s4'_def)
  have len4': "length s4' = length s4" by (simp add: s4'_def)
  have e4: "load s4' k = load s k" if "k < length s" for k
    using that a4 [of k] e3 [of k] len3 len2 len1 len0 by (simp add: ld4 q0_def)
  have f41: "load s4' j = load s3' j" if "j \<in> addrs s3' q1 nw" for j
    using that r1 len0 len2 len3 a4 [of j] by (auto simp: ld4 q0_def k31(2))
  have k41: "owns s4' q1 nw" "addrs s4' q1 nw = C1"
    using child_frame [OF k31(1) f41] by (simp_all add: k31(2))
  have f42: "load s4' j = load s3' j" if "j \<in> addrs s3' q2 ne" for j
    using that r2 len1 len0 len3 a4 [of j] by (auto simp: ld4 q0_def k32(2))
  have k42: "owns s4' q2 ne" "addrs s4' q2 ne = C2"
    using child_frame [OF k32(1) f42] by (simp_all add: k32(2))
  have f43: "load s4' j = load s3' j" if "j \<in> addrs s3' q3 sw" for j
    using that r3 len2 len1 len0 a4 [of j] by (auto simp: ld4 q0_def k33(2))
  have k43: "owns s4' q3 sw" "addrs s4' q3 sw = C3"
    using child_frame [OF k33(1) f43] by (simp_all add: k33(2))
  have f44: "load s4' j = load s4 j" if "j \<in> addrs s4 q4 se" for j
    using that r4 len3 len2 len1 len0 by (auto simp: ld4 q0_def C4_def)
  have k44: "owns s4' q4 se" "addrs s4' q4 se = C4"
    using child_frame [OF own4 f44] by (simp_all add: C4_def)
  \<comment> \<open>the new node\<close>
  have c4v: "cell_upLeft cell4 = ul" "cell_lowRight cell4 = lr" "cell_avg cell4 = c"
    "cell_NW cell4 = q1" "cell_NE cell4 = q2" "cell_SW cell4 = q3" "cell_SE cell4 = q4"
    by (simp_all add: cell4_def cell3_def cell2_def cell1_def cell0_def)
  have lq: "load s4' q0 = Some cell4" by (simp add: ld4)
  have b1: "length s0 \<le> j \<and> j < length s1" if "j \<in> C1" for j using that r1 by auto
  have b2: "length s1 \<le> j \<and> j < length s2" if "j \<in> C2" for j using that r2 by auto
  have b3: "length s2 \<le> j \<and> j < length s3" if "j \<in> C3" for j using that r3 by auto
  have b4: "length s3 \<le> j \<and> j < length s4" if "j \<in> C4" for j using that r4 by auto
  have qC: "q0 \<notin> C1" "q0 \<notin> C2" "q0 \<notin> C3" "q0 \<notin> C4"
    using len0 len1 len2 len3 by (auto simp: q0_def dest!: b1 b2 b3 b4)
  have dC: "C1 \<inter> C2 = {}" "C1 \<inter> C3 = {}" "C1 \<inter> C4 = {}"
      "C2 \<inter> C3 = {}" "C2 \<inter> C4 = {}" "C3 \<inter> C4 = {}"
    using len1 len2 len3 by (auto dest!: b1 b2 b3 b4)
  note N = owns_NodeI [OF lq c4v(1,2,3) k41(1) [folded c4v(4)] k42(1) [folded c4v(5)]
      k43(1) [folded c4v(6)] k44(1) [folded c4v(7)] k41(2) [folded c4v(4)] k42(2) [folded c4v(5)]
      k43(2) [folded c4v(6)] k44(2) [folded c4v(7)] qC dC]
  have ls: "load s0 p = Some n" "load s1' p = Some n" "load s2' p = Some n" "load s3' p = Some n"
    using e0 [OF pl] e1 [OF pl] e2 [OF pl] e3 [OF pl] n by simp_all
  have run: "CopyNode s (Some p) = Some (s4', Some q0)"
    by (subst CopyNode.simps) (simp add: n new ls c1 w1 c2 w2 c3 w3 c4 w4)
  have "copied s ?t s4' (Some q0)"
    unfolding copied_def N(2)
    using N(1) e4 len0 len1 len2 len3 len4 len4'
    by (auto simp: q0_def dest!: b1 b2 b3 b4)
  then show ?case unfolding p using run by blast
qed

lemma ClearNode_owns:
  "owns s node t \<Longrightarrow> \<exists>s'. ClearNode s node = Some s' \<and> freed (addrs s node t) s s'"
proof (induction t arbitrary: s node)
  case nullptr
  then show ?case by (subst ClearNode.simps) (simp add: freed_def)
next
  case (Node ul lr c nw ne sw se)
  from Node.prems(1) obtain p n where p: "node = Some p" and n: "load s p = Some n"
    by (auto split: option.splits)
  define A1 where "A1 = addrs s (cell_NW n) nw"
  define A2 where "A2 = addrs s (cell_NE n) ne"
  define A3 where "A3 = addrs s (cell_SW n) sw"
  define A4 where "A4 = addrs s (cell_SE n) se"
  from Node.prems(1) have o: "owns s (cell_NW n) nw" "owns s (cell_NE n) ne"
    "owns s (cell_SW n) sw" "owns s (cell_SE n) se"
    and pn: "p \<notin> A1" "p \<notin> A2" "p \<notin> A3" "p \<notin> A4"
    and dj: "A1 \<inter> A2 = {}" "A1 \<inter> A3 = {}" "A1 \<inter> A4 = {}"
      "A2 \<inter> A3 = {}" "A2 \<inter> A4 = {}" "A3 \<inter> A4 = {}"
    by (simp_all add: p n A1_def A2_def A3_def A4_def)
  have pl: "p < length s" by (rule load_Some_less [OF n])
  \<comment> \<open>NW\<close>
  obtain s1 where s1: "ClearNode s (cell_NW n) = Some s1" and f1: "freed A1 s s1"
    using Node.IH(1) [OF o(1)] unfolding A1_def by auto
  have len1: "length s1 = length s" using f1 by (simp add: freed_def)
  have ld1: "load s1 q = (if q \<in> A1 then None else load s q)" for q
    using f1 by (simp add: freed_def)
  have l1: "load s1 p = Some n" using pn(1) n by (simp add: ld1)
  \<comment> \<open>NE\<close>
  have fr2: "load s1 q = load s q" if "q \<in> addrs s (cell_NE n) ne" for q
    using that ld1 dj(1) unfolding A2_def by auto
  have o2: "owns s1 (cell_NE n) ne" "addrs s1 (cell_NE n) ne = A2"
    using child_frame [OF o(2) fr2] unfolding A2_def by simp_all
  obtain s2 where s2: "ClearNode s1 (cell_NE n) = Some s2" and f2: "freed A2 s1 s2"
    using Node.IH(2) [OF o2(1)] unfolding o2(2) by auto
  have len2: "length s2 = length s" using f2 len1 by (simp add: freed_def)
  have ld2: "load s2 q = (if q \<in> A1 \<union> A2 then None else load s q)" for q
    using f2 ld1 by (simp add: freed_def)
  have l2: "load s2 p = Some n" using pn(1,2) n by (simp add: ld2)
  \<comment> \<open>SW\<close>
  have fr3: "load s2 q = load s q" if "q \<in> addrs s (cell_SW n) sw" for q
    using that ld2 dj(2) dj(4) unfolding A3_def by auto
  have o3: "owns s2 (cell_SW n) sw" "addrs s2 (cell_SW n) sw = A3"
    using child_frame [OF o(3) fr3] unfolding A3_def by simp_all
  obtain s3 where s3: "ClearNode s2 (cell_SW n) = Some s3" and f3: "freed A3 s2 s3"
    using Node.IH(3) [OF o3(1)] unfolding o3(2) by auto
  have len3: "length s3 = length s" using f3 len2 by (simp add: freed_def)
  have ld3: "load s3 q = (if q \<in> A1 \<union> A2 \<union> A3 then None else load s q)" for q
    using f3 ld2 by (simp add: freed_def)
  have l3: "load s3 p = Some n" using pn(1,2,3) n by (simp add: ld3)
  \<comment> \<open>SE\<close>
  have fr4: "load s3 q = load s q" if "q \<in> addrs s (cell_SE n) se" for q
    using that ld3 dj(3) dj(5) dj(6) unfolding A4_def by auto
  have o4: "owns s3 (cell_SE n) se" "addrs s3 (cell_SE n) se = A4"
    using child_frame [OF o(4) fr4] unfolding A4_def by simp_all
  obtain s4 where s4: "ClearNode s3 (cell_SE n) = Some s4" and f4: "freed A4 s3 s4"
    using Node.IH(4) [OF o4(1)] unfolding o4(2) by auto
  have len4: "length s4 = length s" using f4 len3 by (simp add: freed_def)
  have ld4: "load s4 q = (if q \<in> A1 \<union> A2 \<union> A3 \<union> A4 then None else load s q)" for q
    using f4 ld3 by (simp add: freed_def)
  have l4: "load s4 p = Some n" using pn n by (simp add: ld4)
  have run: "ClearNode s (Some p) = Some (delete_Node s4 p)"
    by (subst ClearNode.simps) (simp add: n s1 l1 s2 l2 s3 l3 s4 l4)
  have "freed (addrs s (Some p) (Node ul lr c nw ne sw se)) s (delete_Node s4 p)"
    using pl len4 ld4 by (simp add: freed_def delete_Node_def n A1_def A2_def A3_def A4_def)
  then show ?case unfolding p using run by simp
qed

section \<open>Copies\<close>

lemma holds_Render:
  "holds m i T \<Longrightarrow> Render_s dflt m i scale = Some (Render dflt T scale)"
  by (simp add: holds_def Render_s_def object_def Render_def RenderNode_s_owns)

lemma holds_frame:
  assumes "holds m j T" and "objects m' ! j = objects m ! j"
    and "length (objects m') = length (objects m)"
    and "\<And>q. q \<in> cells_of m j T \<Longrightarrow> load (heap m') q = load (heap m) q"
  shows "holds m' j T" and "cells_of m' j T = cells_of m j T"
proof -
  from assms(1) have o: "owns (heap m) (obj_root (objects m ! j)) (root T)"
    by (simp add: holds_def)
  have f: "load (heap m') q = load (heap m) q"
    if "q \<in> addrs (heap m) (obj_root (objects m ! j)) (root T)" for q
    using that assms(4) by (simp add: cells_of_def)
  note k = child_frame [OF o f]
  show "holds m' j T" using assms(1,2,3) k(1) by (simp add: holds_def)
  show "cells_of m' j T = cells_of m j T" using k(2) assms(2) by (simp add: cells_of_def)
qed

lemma cells_below:
  "holds m j T \<Longrightarrow> q \<in> cells_of m j T \<Longrightarrow> q < length (heap m)"
  unfolding holds_def cells_of_def by (blast intro: addrs_below)

lemma Clear_holds:
  assumes "holds m i U"
  shows "\<exists>m'. Clear m i = Some m' \<and> length (objects m') = length (objects m) \<and>
     (\<forall>k. k \<noteq> i \<longrightarrow> objects m' ! k = objects m ! k) \<and>
     freed (cells_of m i U) (heap m) (heap m')"
proof -
  from assms have i: "i < length (objects m)"
    and o: "owns (heap m) (obj_root (objects m ! i)) (root U)" by (simp_all add: holds_def)
  obtain s where s: "ClearNode (heap m) (obj_root (objects m ! i)) = Some s"
    and f: "freed (cells_of m i U) (heap m) s"
    using ClearNode_owns [OF o] unfolding cells_of_def by blast
  show ?thesis using i s f by (simp add: Clear_def object_def)
qed

lemma Clear_other:
  assumes "holds m i U" "holds m j T" "i \<noteq> j" "cells_of m j T \<inter> cells_of m i U = {}"
  shows "\<exists>m'. Clear m i = Some m' \<and> holds m' j T \<and> cells_of m' j T = cells_of m j T \<and>
     length (objects m') = length (objects m)"
proof -
  obtain m' where c: "Clear m i = Some m'" and l: "length (objects m') = length (objects m)"
    and k: "\<And>k. k \<noteq> i \<Longrightarrow> objects m' ! k = objects m ! k"
    and f: "freed (cells_of m i U) (heap m) (heap m')"
    using Clear_holds [OF assms(1)] by blast
  have fr: "load (heap m') q = load (heap m) q" if "q \<in> cells_of m j T" for q
    using that f assms(4) by (auto simp: freed_def)
  have oj: "objects m' ! j = objects m ! j" using k assms(3) by simp
  show ?thesis using c l holds_frame [OF assms(2) oj l fr] by simp
qed

lemma Copy_holds:
  assumes "holds m j T" "i < length (objects m)" "i \<noteq> j"
  shows "\<exists>m'. Copy m i j = Some m' \<and> holds m' j T \<and> holds m' i T \<and>
     cells_of m' j T \<inter> cells_of m' i T = {} \<and> length (objects m') = length (objects m)"
proof -
  from assms(1) have j: "j < length (objects m)"
    and wh: "obj_width (objects m ! j) = width T" "obj_height (objects m ! j) = height T"
    and o: "owns (heap m) (obj_root (objects m ! j)) (root T)" by (simp_all add: holds_def)
  obtain s q where c: "CopyNode (heap m) (obj_root (objects m ! j)) = Some (s, q)"
    and cp: "copied (heap m) (root T) s q"
    using CopyNode_owns [OF o] by blast
  define m' where "m' = \<lparr>heap = s, objects = (objects m)[i := \<lparr>obj_width = obj_width (objects m ! j),
       obj_height = obj_height (objects m ! j), obj_root = q\<rparr>]\<rparr>"
  have run: "Copy m i j = Some m'"
    using assms(2) j c by (simp add: Copy_def object_def m'_def)
  have l: "length (objects m') = length (objects m)" by (simp add: m'_def)
  have oj: "objects m' ! j = objects m ! j" using assms(3) by (simp add: m'_def)
  have fr: "load (heap m') k = load (heap m) k" if "k \<in> cells_of m j T" for k
    using cells_below [OF assms(1) that] cp by (simp add: copied_def m'_def)
  note hj = holds_frame [OF assms(1) oj l fr]
  have hi: "holds m' i T"
    using assms(2) wh cp by (simp add: holds_def m'_def copied_def)
  have ci: "cells_of m' i T \<subseteq> {length (heap m) ..< length s}"
    using assms(2) cp by (simp add: cells_of_def m'_def copied_def)
  have "cells_of m' j T \<inter> cells_of m' i T = {}"
  proof -
    have "k \<notin> cells_of m' i T" if "k \<in> cells_of m j T" for k
      using cells_below [OF assms(1) that] ci by auto
    then show ?thesis using hj(2) by auto
  qed
  then show ?thesis using run hj(1) hi l by blast
qed

lemma Prune_s_holds:
  assumes "holds m i T" "holds m j U" "cells_of m j U \<inter> cells_of m i T = {}"
  shows "\<exists>m'. Prune_s d m i tol = Some m' \<and> holds m' i (Prune d T tol) \<and> holds m' j U"
proof -
  from assms(1) have i: "i < length (objects m)"
    and wh: "obj_width (objects m ! i) = width T" "obj_height (objects m ! i) = height T"
    and o: "owns (heap m) (obj_root (objects m ! i)) (root T)" by (simp_all add: holds_def)
  obtain s where p: "PruneNode_s d (heap m) (obj_root (objects m ! i)) tol = Some s"
    and pr: "pruned d tol (heap m) (obj_root (objects m ! i)) (root T) s"
    using PruneNode_s_owns [OF o] by blast
  define m' where "m' = m\<lparr>heap := s\<rparr>"
  have run: "Prune_s d m i tol = Some m'"
    using i p by (simp add: Prune_s_def object_def m'_def)
  have hi: "holds m' i (Prune d T tol)"
    using i wh pr by (simp add: holds_def m'_def pruned_def Prune_def)
  have fr: "load (heap m') q = load (heap m) q" if "q \<in> cells_of m j U" for q
  proof -
    have "q \<notin> addrs (heap m) (obj_root (objects m ! i)) (root T)"
      using that assms(3) by (auto simp: cells_of_def)
    then show ?thesis using pr by (simp add: pruned_def m'_def)
  qed
  have "holds m' j U"
    by (rule holds_frame(1) [OF assms(2) _ _ fr]) (simp_all add: m'_def)
  then show ?thesis using run hi by blast
qed

lemma isolatedI:
  assumes "holds m j T" "holds m c T" "c \<noteq> j" "cells_of m j T \<inter> cells_of m c T = {}"
  shows "isolated dflt d tol scale m j c T"
proof -
  obtain m1 where m1: "Prune_s d m c tol = Some m1" "holds m1 c (Prune d T tol)" "holds m1 j T"
    using Prune_s_holds [OF assms(2) assms(1) assms(4)] by blast
  obtain m2 where m2: "Clear m c = Some m2" "holds m2 j T"
    using Clear_other [OF assms(2) assms(1) assms(3) assms(4)] by blast
  show ?thesis
    unfolding isolated_def
    using assms(1,2,4) m1 m2 holds_Render [OF assms(1)] holds_Render [OF m1(3)]
      holds_Render [OF m2(2)]
    by simp
qed

text \<open>
  C8. For every tree held by an object, a second tree made from it by the copy
  constructor, or by assignment to another object that holds a tree of its
  own, holds the same value on cells that the original does not use (the two
  trees share no nodes); pruning the copy, with any metric and tolerance, or
  clearing it, returns and leaves the original object with its tree and with
  the \<^verbatim>\<open>Render\<close> output it had.
\<close>

theorem C8_copy_isolation:
  assumes "holds m j T"
  shows "(\<exists>m' c. QTree_copy m junk j = Some (m', c) \<and> isolated dflt d tol scale m' j c T) \<and>
    (\<forall>i U. holds m i U \<and> i \<noteq> j \<and> cells_of m i U \<inter> cells_of m j T = {} \<longrightarrow>
       (\<exists>m'. operator_assign m i j = Some m' \<and> isolated dflt d tol scale m' j i T))"
proof (intro conjI allI impI)
  define m0 where "m0 = m\<lparr>objects := objects m @ [junk]\<rparr>"
  define c where "c = length (objects m)"
  from assms have j: "j < length (objects m)" by (simp add: holds_def)
  have h0: "holds m0 j T"
    using assms by (simp add: holds_def m0_def nth_append)
  have c0: "c < length (objects m0)" "c \<noteq> j" using j by (simp_all add: m0_def c_def)
  obtain m' where m': "Copy m0 c j = Some m'" "holds m' j T" "holds m' c T"
    "cells_of m' j T \<inter> cells_of m' c T = {}"
    using Copy_holds [OF h0 c0] by blast
  have "QTree_copy m junk j = Some (m', c)"
    using m'(1) by (simp add: QTree_copy_def m0_def c_def)
  then show "\<exists>m' c. QTree_copy m junk j = Some (m', c) \<and> isolated dflt d tol scale m' j c T"
    using isolatedI [OF m'(2) m'(3) c0(2) m'(4)] by blast
next
  fix i U
  assume a: "holds m i U \<and> i \<noteq> j \<and> cells_of m i U \<inter> cells_of m j T = {}"
  then have hi: "holds m i U" and ij: "i \<noteq> j"
    and dj: "cells_of m j T \<inter> cells_of m i U = {}" by auto
  obtain m1 where m1: "Clear m i = Some m1" "holds m1 j T"
    "length (objects m1) = length (objects m)"
    using Clear_other [OF hi assms ij dj] by blast
  have i1: "i < length (objects m1)" using hi m1(3) by (simp add: holds_def)
  obtain m' where m': "Copy m1 i j = Some m'" "holds m' j T" "holds m' i T"
    "cells_of m' j T \<inter> cells_of m' i T = {}"
    using Copy_holds [OF m1(2) i1 ij] by blast
  have "operator_assign m i j = Some m'"
    using ij m1(1) m'(1) by (simp add: operator_assign_def)
  then show "\<exists>m'. operator_assign m i j = Some m' \<and> isolated dflt d tol scale m' j i T"
    using isolatedI [OF m'(2) m'(3) ij m'(4)] by blast
qed

theorem C8_witness:
  "holds mem1 0 tree1 \<and>
   (\<exists>m' c. QTree_copy mem1 junk1 0 = Some (m', c) \<and>
      isolated dflt0 dist_sq 10 1 m' 0 c tree1) \<and>
   (\<exists>m'. operator_assign mem1 1 0 = Some m' \<and> isolated dflt0 dist_sq 10 1 m' 0 1 tree1)"
proof -
  have h: "holds mem1 0 tree1" "holds mem1 1 tree2"
    "cells_of mem1 1 tree2 \<inter> cells_of mem1 0 tree1 = {}"
    by (simp_all add: holds_def cells_of_def mem1_def tree1_def tree2_def load_def
        leaf_cell_def red_def)
  show ?thesis
    using C8_copy_isolation [OF h(1), of junk1 dflt0 dist_sq 10 1] h by blast
qed

end
